theory Spec2Isabelle
  imports Complex_Main "HOL-Library.Sublist" "HOL-Library.Word"
begin

chapter \<open>Serial scale reader: framing, decoding, probing\<close>

text \<open>
  The repository is a set of near-identical React front ends (\<^verbatim>\<open>test.tsx\<close>,
  \<^verbatim>\<open>test2.tsx\<close>, \<^verbatim>\<open>test3.tsx\<close>, \<^verbatim>\<open>test4.tsx\<close> and three unnamed parts) that read a
  weighing scale over Web Serial. This theory embeds their pure helpers and the
  state-changing bodies of their loops.

  Conventions of the embedding:
  \<^item> JavaScript text is a list of code units. The framer is polymorphic in the code
    unit; the decoders work on \<^typ>\<open>string\<close> (8-bit characters, which is what the
    \<^verbatim>\<open>TextDecoderStream("ascii")\<close> of the sources produces for the digits, letters,
    signs and white space the patterns look at).
  \<^item> JavaScript numbers are IEEE doubles. They are embedded as exact rationals
    (\<^typ>\<open>rat\<close>): the integers read from at most six digits are exact in both; a product
    by 0.001, a quotient by 1000 and a mean are the exact values here, which the doubles
    of the code approximate to within rounding. Number formatting (\<^verbatim>\<open>toFixed\<close>) is not
    embedded; where a loop displays a number the formatter is a parameter.
  \<^item> An exception is a value \<open>Inl msg\<close>; a promise that never settles is \<open>None\<close>.
  \<^item> React state setters are writes to a record of the component's state.
\<close>

section \<open>Text primitives of the host language\<close>

text \<open>\<^verbatim>\<open>String.prototype.indexOf\<close>: the first position at which \<open>d\<close> occurs in \<open>s\<close>.\<close>

fun indexOf :: "'a list \<Rightarrow> 'a list \<Rightarrow> nat option" where
  "indexOf d [] = (if d = [] then Some 0 else None)"
| "indexOf d (x # xs) =
     (if prefix d (x # xs) then Some 0 else map_option Suc (indexOf d xs))"

lemma indexOf_bounds: "indexOf d s = Some i \<Longrightarrow> i + length d \<le> length s"
  by (induction s arbitrary: i) (auto split: if_splits dest: prefix_length_le)

text \<open>
  \<^verbatim>\<open>String.prototype.split(separator)\<close> with a string separator and no limit. An empty
  separator splits into single code units (and the empty text into no part at all);
  otherwise the text is cut at each leftmost occurrence of the separator, looking for
  the next occurrence after the end of the previous one, and the rest is the last part.
\<close>

function split_sep :: "'a list \<Rightarrow> 'a list \<Rightarrow> 'a list list" where
  "split_sep d s =
     (if d = [] then map (\<lambda>c. [c]) s
      else (case indexOf d s of
              None \<Rightarrow> [s]
            | Some i \<Rightarrow> take i s # split_sep d (drop (i + length d) s)))"
  by pat_completeness auto
termination
proof (relation "measure (\<lambda>(d, s). length s)")
  show "wf (measure (\<lambda>(d, s). length s))" by simp
next
  fix d s :: "'a list" and i
  assume "d \<noteq> []" "indexOf d s = Some i"
  then have "i + length d \<le> length s" "0 < length d"
    by (auto dest: indexOf_bounds)
  then show "((d, drop (i + length d) s), (d, s)) \<in> measure (\<lambda>(d, s). length s)"
    by (cases d) simp_all
qed

declare split_sep.simps [simp del]

text \<open>\<^verbatim>\<open>String.prototype.includes\<close>.\<close>

definition js_includes :: "'a list \<Rightarrow> 'a list \<Rightarrow> bool" where
  "js_includes s d = (indexOf d s \<noteq> None)"

text \<open>\<^verbatim>\<open>Array.prototype.join(sep)\<close> on parts that are already text.\<close>

fun join :: "'a list \<Rightarrow> 'a list list \<Rightarrow> 'a list" where
  "join sep [] = []"
| "join sep [p] = p"
| "join sep (p # q # ps) = p @ sep @ join sep (q # ps)"

text \<open>
  The white space that \<^verbatim>\<open>String.prototype.trim\<close> strips and \<^verbatim>\<open>\s\<close> matches, among
  8-bit code units: TAB, LF, VT, FF, CR, SPACE and NBSP.
\<close>

definition isWhiteSpace :: "char \<Rightarrow> bool" where
  "isWhiteSpace c =
     (c \<in> {CHR 0x09, CHR 0x0A, CHR 0x0B, CHR 0x0C, CHR 0x0D, CHR 0x20, CHR 0xA0})"

definition trimStart :: "string \<Rightarrow> string" where
  "trimStart s = dropWhile isWhiteSpace s"

definition trimEnd :: "string \<Rightarrow> string" where
  "trimEnd s = rev (dropWhile isWhiteSpace (rev s))"

definition trim :: "string \<Rightarrow> string" where
  "trim s = trimEnd (trimStart s)"

text \<open>The class \<^verbatim>\<open>\d\<close>, and the number a run of decimal digits denotes.\<close>

definition isDigit :: "char \<Rightarrow> bool" where
  "isDigit c = (c \<in> set ''0123456789'')"

definition digitVal :: "char \<Rightarrow> nat" where
  "digitVal c = of_char c - 48"

definition digitsToNat :: "string \<Rightarrow> nat" where
  "digitsToNat ds = foldl (\<lambda>a c. 10 * a + digitVal c) 0 ds"

text \<open>\<^verbatim>\<open>Number.prototype.toString()\<close> of a non-negative integer.\<close>

fun natToString :: "nat \<Rightarrow> string" where
  "natToString n =
     (if n < 10 then [char_of (48 + n)]
      else natToString (n div 10) @ [char_of (48 + n mod 10)])"

declare natToString.simps [simp del]

text \<open>
  \<^verbatim>\<open>toUpperCase\<close> on one code unit: the ASCII letters are mapped, every other unit is
  returned as it is. The sources apply it to a unit that has matched a class of ASCII
  letters, and the flag \<^verbatim>\<open>i\<close> of a pattern compares its result with ASCII letters only.
\<close>

definition toUpperCase :: "char \<Rightarrow> char" where
  "toUpperCase c =
     (if (97::nat) \<le> of_char c \<and> of_char c \<le> (122::nat)
      then char_of (of_char c - (32::nat)) else c)"

section \<open>LineFramer: \<^verbatim>\<open>makeLineTransformer\<close>\<close>

text \<open>
  \<^verbatim>\<open>
  function makeLineTransformer(delimiter = "\r") {
    let buffer = "";
    return new TransformStream<string, string>({
      transform(chunk, controller) {
        buffer += chunk;
        const parts = buffer.split(delimiter);
        buffer = parts.pop() ?? "";
        for (const p of parts) controller.enqueue(p);
      },
      flush(controller) { if (buffer) controller.enqueue(buffer); }
    });
  }
  \<close>
  The same function stands in every front end. \<open>pop_or_empty\<close> is
  \<^verbatim>\<open>parts.pop() ?? ""\<close>; what \<^verbatim>\<open>pop\<close> leaves in \<^verbatim>\<open>parts\<close> is \<open>butlast parts\<close>.
  \<open>transform\<close> returns the new buffer and the lines it enqueues, \<open>flush\<close> the lines
  enqueued at the end of the stream.
\<close>

definition pop_or_empty :: "'a list list \<Rightarrow> 'a list" where
  "pop_or_empty parts = (case rev parts of [] \<Rightarrow> [] | p # _ \<Rightarrow> p)"

definition transform :: "'a list \<Rightarrow> 'a list \<Rightarrow> 'a list \<Rightarrow> 'a list \<times> 'a list list" where
  "transform delimiter buffer chunk =
     (let buffer1 = buffer @ chunk;
          parts = split_sep delimiter buffer1
      in (pop_or_empty parts, butlast parts))"

definition flush :: "'a list \<Rightarrow> 'a list list" where
  "flush buffer = (if buffer \<noteq> [] then [buffer] else [])"

text \<open>
  The stream piped through the transformer: \<open>transform\<close> on each chunk in order, the
  buffer threaded through, then \<open>flush\<close> when the source ends.
\<close>

fun pipeThrough :: "'a list \<Rightarrow> 'a list \<Rightarrow> 'a list list \<Rightarrow> 'a list list" where
  "pipeThrough delimiter buffer [] = flush buffer"
| "pipeThrough delimiter buffer (chunk # chunks) =
     (case transform delimiter buffer chunk of
        (buffer', out) \<Rightarrow> out @ pipeThrough delimiter buffer' chunks)"

definition makeLineTransformer :: "'a list \<Rightarrow> 'a list list \<Rightarrow> 'a list list" where
  "makeLineTransformer delimiter chunks = pipeThrough delimiter [] chunks"

section \<open>TelegramDecoder\<close>

subsection \<open>The regular expressions\<close>

text \<open>
  Each pattern of the sources is embedded as a matcher that returns the capture
  groups the code reads. \<open>fixedDigits n\<close> is \<^verbatim>\<open>\d{n}\<close> against a whole text.
\<close>

definition fixedDigits :: "nat \<Rightarrow> string \<Rightarrow> bool" where
  "fixedDigits n ds = (length ds = n \<and> list_all isDigit ds)"

text \<open>
  \<^verbatim>\<open>/^([PNTBR])\s?(\d{5})$/i\<close> (\<^verbatim>\<open>parseLineByMode\<close>) and \<^verbatim>\<open>/^([PN TBR])\s?(\d{5})$/i\<close>
  (\<^verbatim>\<open>parseLatorre5\<close>, whose class also lists the space): \<open>letters\<close> is the class.
  The flag \<^verbatim>\<open>i\<close> compares code units after \<^verbatim>\<open>toUpperCase\<close>. \<^verbatim>\<open>\s?\<close> is greedy: a white
  space after the letter is consumed when five digits follow it to the end; without it
  the five digits must follow the letter at once. Returns groups 1 and 2.
\<close>

definition matchFlagged :: "string \<Rightarrow> string \<Rightarrow> (char \<times> string) option" where
  "matchFlagged letters s =
     (case s of
        [] \<Rightarrow> None
      | c # rest \<Rightarrow>
          if toUpperCase c \<in> set letters then
            (case rest of
               [] \<Rightarrow> None
             | w # ds \<Rightarrow>
                 if isWhiteSpace w \<and> fixedDigits 5 ds then Some (c, ds)
                 else if fixedDigits 5 rest then Some (c, rest)
                 else None)
          else None)"

text \<open>\<^verbatim>\<open>/^(\d{5})$/\<close>, group 1.\<close>

definition matchOnly5 :: "string \<Rightarrow> string option" where
  "matchOnly5 s = (if fixedDigits 5 s then Some s else None)"

text \<open>\<^verbatim>\<open>/^D(\d{6})$/i\<close>, group 1.\<close>

definition matchD6 :: "string \<Rightarrow> string option" where
  "matchD6 s =
     (case s of
        [] \<Rightarrow> None
      | c # ds \<Rightarrow> if toUpperCase c = CHR ''D'' \<and> fixedDigits 6 ds then Some ds else None)"

text \<open>
  \<^verbatim>\<open>/([+\-]?\d{1,6}(?:[.,]\d{1,3})?)/\<close> (\<^verbatim>\<open>weightRegex\<close>, \<^verbatim>\<open>genericNumberRegex\<close>).
  \<open>genericAt\<close> is the match that starts at the head of the text: an optional sign,
  then as many digits as there are, up to six, then, when a separator and at least one
  digit follow, the separator and up to three digits. Every quantifier is greedy and
  nothing follows the optional group, so the first attempt is the match; if no digit
  follows the optional sign, giving the sign back leaves a sign where a digit is
  needed, and there is no match at this position. \<open>genericSearch\<close> is the unanchored
  search: the match at the leftmost position that has one. Returns group 1.
\<close>

definition isSign :: "char \<Rightarrow> bool" where
  "isSign c = (c = CHR ''+'' \<or> c = CHR ''-'')"

definition isSeparator :: "char \<Rightarrow> bool" where
  "isSeparator c = (c = CHR ''.'' \<or> c = CHR '','')"

definition genericAt :: "string \<Rightarrow> string option" where
  "genericAt s =
     (let sg = (case s of [] \<Rightarrow> [] | c # _ \<Rightarrow> if isSign c then [c] else []);
          r = drop (length sg) s;
          ds = takeWhile isDigit (take 6 r);
          r2 = drop (length ds) r;
          fr = (case r2 of
                  [] \<Rightarrow> []
                | c # r3 \<Rightarrow>
                    (let fs = takeWhile isDigit (take 3 r3)
                     in if isSeparator c \<and> fs \<noteq> [] then c # fs else []))
      in if ds = [] then None else Some (sg @ ds @ fr))"

fun genericSearch :: "string \<Rightarrow> string option" where
  "genericSearch [] = None"
| "genericSearch (c # cs) =
     (case genericAt (c # cs) of Some m \<Rightarrow> Some m | None \<Rightarrow> genericSearch cs)"

text \<open>\<^verbatim>\<open>s.replace(a, b)\<close> with one-unit texts \<open>a\<close> and \<open>b\<close>: the first \<open>a\<close> only.\<close>

fun replaceFirst :: "char \<Rightarrow> char \<Rightarrow> string \<Rightarrow> string" where
  "replaceFirst a b [] = []"
| "replaceFirst a b (c # cs) = (if c = a then b # cs else c # replaceFirst a b cs)"

text \<open>
  \<^verbatim>\<open>Number(t)\<close> for a text of the shape the generic pattern returns after the comma
  has been replaced: an optional sign, digits, and optionally a point and digits.
  Such a number is finite, so the \<^verbatim>\<open>Number.isFinite\<close> tests of the sources hold.
\<close>

definition toNumber :: "string \<Rightarrow> rat" where
  "toNumber t =
     (let u = (case t of [] \<Rightarrow> [] | c # r \<Rightarrow> if isSign c then r else t);
          ip = takeWhile isDigit u;
          fp = drop (Suc (length ip)) u;
          mag = of_nat (digitsToNat ip) + of_nat (digitsToNat fp) / 10 ^ length fp
      in if t \<noteq> [] \<and> hd t = CHR ''-'' then - mag else mag)"

subsection \<open>\<^verbatim>\<open>parseWeight\<close> (auto-detecting front ends)\<close>

text \<open>
  \<^verbatim>\<open>
  const weightRegex = /([+\-]?\d{1,6}(?:[.,]\d{1,3})?)/;
  function parseWeight(raw: string): string | null {
    const m = raw.trim().match(weightRegex);
    return m ? m[1].replace(",", ".") : null;
  }
  \<close>
\<close>

definition parseWeight :: "string \<Rightarrow> string option" where
  "parseWeight raw =
     (case genericSearch (trim raw) of
        None \<Rightarrow> None
      | Some m1 \<Rightarrow> Some (replaceFirst CHR '','' CHR ''.'' m1))"

subsection \<open>\<^verbatim>\<open>parseLatorre5\<close> and \<^verbatim>\<open>parseGeneric\<close> (virtual scale tester)\<close>

text \<open>
  Both return \<^verbatim>\<open>{ value, valueStr, source }\<close> or \<^verbatim>\<open>null\<close>. The record keeps the number and
  the tag; \<^verbatim>\<open>valueStr\<close>, the number formatted for the screen, is left out.
  \<^verbatim>\<open>SCALE_FACTOR\<close> is a constant of the file that the installer is told to edit
  (0.001 as shipped); \<open>parseLatorre5_with\<close> takes it as an argument.
  \<^verbatim>\<open>
  function parseLatorre5(raw) {
    const s = raw.trim();
    const m = s.match(/^([PN TBR])\s?(\d{5})$/i);
    if (!m) return null;
    const code = m[1].toUpperCase();
    const digits = m[2];
    const integer = parseInt(digits, 10);
    if (Number.isNaN(integer)) return null;
    const val = integer * SCALE_FACTOR;
    ...
    return { value: val, valueStr, source: `L1001(${code})` };
  }
  function parseGeneric(raw) {
    const m = raw.trim().match(genericNumberRegex);
    if (!m) return null;
    const normalized = m[1].replace(",", ".");
    const num = Number(normalized);
    if (!Number.isFinite(num)) return null;
    return { value: num, valueStr: normalized, source: "GEN" };
  }
  \<close>
\<close>

record Reading =
  reading_value :: rat
  reading_source :: string

definition SCALE_FACTOR :: rat where
  "SCALE_FACTOR = 1 / 1000"

definition parseLatorre5_with :: "rat \<Rightarrow> string \<Rightarrow> Reading option" where
  "parseLatorre5_with scale rawIn =
     (let s = trim rawIn
      in case matchFlagged ''PN TBR'' s of
           None \<Rightarrow> None
         | Some (m1, digits) \<Rightarrow>
             (let code = toUpperCase m1;
                  integer = digitsToNat digits;
                  val = of_nat integer * scale
              in Some \<lparr>reading_value = val,
                       reading_source = ''L1001('' @ [code] @ '')''\<rparr>))"

definition parseLatorre5 :: "string \<Rightarrow> Reading option" where
  "parseLatorre5 rawIn = parseLatorre5_with SCALE_FACTOR rawIn"

definition parseGeneric :: "string \<Rightarrow> Reading option" where
  "parseGeneric rawIn =
     (case genericSearch (trim rawIn) of
        None \<Rightarrow> None
      | Some m1 \<Rightarrow>
          (let normalized = replaceFirst CHR '','' CHR ''.'' m1;
               num = toNumber normalized
           in Some \<lparr>reading_value = num, reading_source = ''GEN''\<rparr>))"

text \<open>
  The body of the read loop of \<^verbatim>\<open>connect\<close>, for one trimmed and non-empty line:
  \<^verbatim>\<open>
  const lat = parseLatorre5(raw);
  if (lat) { setWeight(...); continue; }
  const gen = parseGeneric(raw);
  if (gen) { setWeight(...); } else { /* [IGNORADO] */ }
  \<close>
  \<open>decodeLine\<close> is the reading the loop shows, \<open>None\<close> when the line is ignored.
\<close>

definition decodeLine :: "string \<Rightarrow> Reading option" where
  "decodeLine line =
     (case parseLatorre5 line of
        Some lat \<Rightarrow> Some lat
      | None \<Rightarrow> (case parseGeneric line of Some gen \<Rightarrow> Some gen | None \<Rightarrow> None))"

subsection \<open>\<^verbatim>\<open>parseLineByMode\<close> (Latorre reader with modes)\<close>

text \<open>
  \<^verbatim>\<open>
  type Mode = "AUTO" | "GRAMS5_P" | "GRAMS5" | "KG5";
  const MODE: Mode = "AUTO";
  const ASSUME_5DIGITS_IS: "GRAMS" | "KG" = "GRAMS";
  const FACTOR = { GRAMS: 0.001, KG: 1 };
  type ParseResult = { ok: boolean; raw: string; kg?: number;
    source?: "GRAMS5_P" | "GRAMS5" | "KG5" | "GENERIC"; flag?: "P" | "N" | "T" | "B" | "R" };

  function parseLineByMode(rawIn: string, mode: Mode): ParseResult {
    const raw = rawIn.trim();
    const withFlag = raw.match(/^([PNTBR])\s?(\d{5})$/i);
    if (withFlag) {
      const v = Number(withFlag[2]) * FACTOR.GRAMS;
      return { ok: true, raw, kg: v, source: "GRAMS5_P", flag: withFlag[1].toUpperCase() as any };
    }
    const only5 = raw.match(/^(\d{5})$/);
    if (only5) {
      if (mode === "KG5" || (mode === "AUTO" && ASSUME_5DIGITS_IS === "KG")) {
        return { ok: true, raw, kg: Number(only5[1]) * FACTOR.KG, source: "KG5" };
      } else {
        return { ok: true, raw, kg: Number(only5[1]) * FACTOR.GRAMS, source: "GRAMS5" };
      }
    }
    const gen = raw.match(/([+\-]?\d{1,6}(?:[.,]\d{1,3})?)/);
    if (gen) {
      const v = Number(gen[1].replace(",", "."));
      return { ok: Number.isFinite(v), raw, kg: v, source: "GENERIC" };
    }
    return { ok: false, raw };
  }
  \<close>
  The tags of \<^verbatim>\<open>source\<close> share three names with the modes; as constructors they
  carry the prefix \<open>Src_\<close>. \<^verbatim>\<open>ASSUME_5DIGITS_IS\<close> is a constant of the file meant to
  be edited; \<open>parseLineByMode_with\<close> takes it as an argument.
\<close>

datatype Mode = AUTO | GRAMS5_P | GRAMS5 | KG5

datatype Unit5 = GRAMS | KG

datatype Source = Src_GRAMS5_P | Src_GRAMS5 | Src_KG5 | Src_GENERIC

record ParseResult =
  ok :: bool
  raw :: string
  kg :: "rat option"
  source :: "Source option"
  flag :: "char option"

definition MODE :: Mode where
  "MODE = AUTO"

definition ASSUME_5DIGITS_IS :: Unit5 where
  "ASSUME_5DIGITS_IS = GRAMS"

fun FACTOR :: "Unit5 \<Rightarrow> rat" where
  "FACTOR GRAMS = 1 / 1000"
| "FACTOR KG = 1"

definition parseLineByMode_with :: "Unit5 \<Rightarrow> string \<Rightarrow> Mode \<Rightarrow> ParseResult" where
  "parseLineByMode_with assume5 rawIn mode =
     (let line = trim rawIn
      in case matchFlagged ''PNTBR'' line of
           Some (m1, m2) \<Rightarrow>
             \<lparr>ok = True, raw = line, kg = Some (of_nat (digitsToNat m2) * FACTOR GRAMS),
              source = Some Src_GRAMS5_P, flag = Some (toUpperCase m1)\<rparr>
         | None \<Rightarrow>
             (case matchOnly5 line of
                Some m1 \<Rightarrow>
                  if mode = KG5 \<or> (mode = AUTO \<and> assume5 = KG)
                  then \<lparr>ok = True, raw = line, kg = Some (of_nat (digitsToNat m1) * FACTOR KG),
                        source = Some Src_KG5, flag = None\<rparr>
                  else \<lparr>ok = True, raw = line, kg = Some (of_nat (digitsToNat m1) * FACTOR GRAMS),
                        source = Some Src_GRAMS5, flag = None\<rparr>
              | None \<Rightarrow>
                  (case genericSearch line of
                     Some m1 \<Rightarrow>
                       \<lparr>ok = True, raw = line,
                        kg = Some (toNumber (replaceFirst CHR '','' CHR ''.'' m1)),
                        source = Some Src_GENERIC, flag = None\<rparr>
                   | None \<Rightarrow>
                       \<lparr>ok = False, raw = line, kg = None, source = None, flag = None\<rparr>)))"

definition parseLineByMode :: "string \<Rightarrow> Mode \<Rightarrow> ParseResult" where
  "parseLineByMode rawIn mode = parseLineByMode_with ASSUME_5DIGITS_IS rawIn mode"

subsection \<open>\<^verbatim>\<open>parseLaTorre\<close> (La Torre readers)\<close>

text \<open>
  \<^verbatim>\<open>
  function parseLaTorre(rawIn: string): { ok: boolean; kg?: number } {
    const raw = rawIn.trim();
    const m = raw.match(/^D(\d{6})$/i);
    if (!m) return { ok: false };
    const grams = Number(m[1]);
    if (!Number.isFinite(grams)) return { ok: false };
    return { ok: true, kg: grams / 1000 };
  }
  \<close>
  \<open>None\<close> is \<^verbatim>\<open>{ ok: false }\<close>, \<open>Some kg\<close> is \<^verbatim>\<open>{ ok: true, kg }\<close>.
\<close>

definition parseLaTorre :: "string \<Rightarrow> rat option" where
  "parseLaTorre rawIn =
     (let line = trim rawIn
      in case matchD6 line of
           None \<Rightarrow> None
         | Some m1 \<Rightarrow> (let grams = digitsToNat m1 in Some (of_nat grams / 1000)))"

section \<open>ReadSession of the La Torre display: smoothing and watchdog\<close>

text \<open>
  The component \<^verbatim>\<open>BalanzaLaTorre\<close> keeps \<^verbatim>\<open>connected\<close>, \<^verbatim>\<open>displayKg\<close> (React state) and
  \<^verbatim>\<open>lastSeenRef\<close>, \<^verbatim>\<open>smoothRef\<close> (refs). \<^verbatim>\<open>connect\<close> sets them to \<open>freshSession\<close> before
  the read loop starts.
  \<^verbatim>\<open>
  const FRAME_TIMEOUT_MS = 800;
  const SMOOTH_WINDOW = 3;
  \<close>
\<close>

record Session =
  connected :: bool
  lastSeen :: int
  smooth :: "rat list"
  displayKg :: string

definition FRAME_TIMEOUT_MS :: int where
  "FRAME_TIMEOUT_MS = 800"

definition SMOOTH_WINDOW :: nat where
  "SMOOTH_WINDOW = 3"

definition freshSession :: Session where
  "freshSession = \<lparr>connected = True, lastSeen = 0, smooth = [], displayKg = ''0.000''\<rparr>"

text \<open>
  One turn of the read loop, for the line \<open>line\<close> read when the clock shows \<open>now\<close>:
  \<^verbatim>\<open>
  const { value, done } = await reader.read();
  if (done) break;
  if (typeof value !== 'string') continue;
  const raw = value.trim();
  if (!raw) continue;
  const res = parseLaTorre(raw);
  if (!res.ok || typeof res.kg !== 'number') continue;
  lastSeenRef.current = Date.now();
  const arr = smoothRef.current;
  arr.push(res.kg);
  if (arr.length > SMOOTH_WINDOW) arr.shift();
  const avg = arr.reduce((a, b) => a + b, 0) / arr.length;
  setDisplayKg(avg.toFixed(3));
  \<close>
  \<open>toFixed3\<close> stands for \<^verbatim>\<open>(x) => x.toFixed(3)\<close>. The stream delivers strings and
  \<^verbatim>\<open>res.kg\<close> is a number whenever \<^verbatim>\<open>res.ok\<close> holds, so the two \<^verbatim>\<open>typeof\<close> tests never
  hold.
\<close>

definition pushShift :: "rat list \<Rightarrow> rat \<Rightarrow> rat list" where
  "pushShift arr x =
     (let arr1 = arr @ [x]
      in if length arr1 > SMOOTH_WINDOW then tl arr1 else arr1)"

definition readLine :: "(rat \<Rightarrow> string) \<Rightarrow> Session \<Rightarrow> int \<times> string \<Rightarrow> Session" where
  "readLine toFixed3 st ev =
     (case ev of (now, line) \<Rightarrow>
        (let line1 = trim line
         in if line1 = [] then st
            else (case parseLaTorre line1 of
                    None \<Rightarrow> st
                  | Some x \<Rightarrow>
                      (let arr = pushShift (smooth st) x;
                           avg = foldl (+) 0 arr / of_nat (length arr)
                       in st\<lparr>lastSeen := now, smooth := arr, displayKg := toFixed3 avg\<rparr>))))"

text \<open>
  One poll of the watchdog, when the clock shows \<open>now\<close>. The interval exists while
  \<^verbatim>\<open>connected\<close> holds.
  \<^verbatim>\<open>
  const id = setInterval(() => {
    if (!lastSeenRef.current) return;
    const elapsed = Date.now() - lastSeenRef.current;
    if (elapsed > FRAME_TIMEOUT_MS) {
      smoothRef.current = [];
      setDisplayKg('0.000');
    }
  }, 120);
  \<close>
  The first component of the result says whether this poll ran the two statements of
  the reset.
\<close>

definition watchdogPoll :: "int \<Rightarrow> Session \<Rightarrow> bool \<times> Session" where
  "watchdogPoll now st =
     (if \<not> connected st then (False, st)
      else if lastSeen st = 0 then (False, st)
      else (let elapsed = now - lastSeen st
            in if elapsed > FRAME_TIMEOUT_MS
               then (True, st\<lparr>smooth := [], displayKg := ''0.000''\<rparr>)
               else (False, st)))"

section \<open>ParameterSpace and ProbeEngine\<close>

subsection \<open>The port and the component state\<close>

text \<open>
  \<^verbatim>\<open>
  type DetectedConfig = { baudRate: number; dataBits: 7 | 8; parity: "none" | "even";
    stopBits: 1; delimiter: "\r" | "\r\n" | "\n"; name: string; };
  \<close>
\<close>

datatype Parity = ParityNone | ParityEven

record Setup =
  setup_dataBits :: nat
  setup_parity :: Parity
  setup_name :: string

record DetectedConfig =
  baudRate :: nat
  dataBits :: nat
  parity :: Parity
  stopBits :: nat
  delimiter :: string
  name :: string

text \<open>
  What \<^verbatim>\<open>lined.getReader()\<close> delivers to successive \<^verbatim>\<open>await reader.read()\<close>:
  \<^item> \<open>Yield line t rest\<close>: the read resolves with \<^verbatim>\<open>{ value: line, done: false }\<close>, the
    next \<^verbatim>\<open>Date.now()\<close> of the caller shows \<open>t\<close>, and \<open>rest\<close> follows;
  \<^item> \<open>Closed\<close>: the read resolves with \<^verbatim>\<open>{ done: true }\<close>;
  \<^item> \<open>Errored msg\<close>: the read rejects;
  \<^item> \<open>Silent\<close>: no line ever arrives, the read stays pending.
\<close>

datatype Reader = Yield string int Reader | Closed | Errored string | Silent

type_synonym byte = "8 word"

text \<open>
  The port, as far as the code can observe it:
  \<^item> \<open>openError b db p sb\<close>: the message of the exception that \<^verbatim>\<open>port.open\<close> (or
    \<^verbatim>\<open>setSignals\<close>) throws for these parameters, if it throws;
  \<^item> \<open>clock cfg\<close>: what \<^verbatim>\<open>Date.now()\<close> shows when the probe of \<open>cfg\<close> starts listening;
  \<^item> \<open>lined cfg\<close>: the lines read during the probe of \<open>cfg\<close>;
  \<^item> \<open>echoed out\<close>: in the loopback test, after the bytes \<open>out\<close> have been written,
    the bytes that \<^verbatim>\<open>readSomeBytes\<close> returns, or the message of an exception thrown by
    \<^verbatim>\<open>setSignals\<close>, the write or the read.
\<close>

record SerialPortLike =
  openError :: "nat \<Rightarrow> nat \<Rightarrow> Parity \<Rightarrow> nat \<Rightarrow> string option"
  clock :: "DetectedConfig \<Rightarrow> int"
  lined :: "DetectedConfig \<Rightarrow> Reader"
  echoed :: "byte list \<Rightarrow> string + byte list"

text \<open>
  The React state the probing code writes. The texts of the status line and of the
  log are kept as constructors with the interpolated values as arguments.
\<close>

datatype Status = Initial | Probing string | OpenFailed string

datatype LogEntry =
    LogOpenError string
  | LogProbeFailed string string
  | LogDetected string string string
  | LogLoopbackRx "byte list"

record UI =
  status :: Status
  rawLine :: string
  weight :: string
  log :: "LogEntry list"

definition setLog :: "LogEntry \<Rightarrow> UI \<Rightarrow> UI" where
  "setLog e ui = ui\<lparr>log := take 80 (e # log ui)\<rparr>"

subsection \<open>\<^verbatim>\<open>openWithConfig\<close> and \<^verbatim>\<open>probeOnce\<close>\<close>

text \<open>
  In \<^verbatim>\<open>test.tsx\<close> both functions write to the log:
  \<^verbatim>\<open>
  async function openWithConfig(port, baudRate, dataBits, parity, stopBits) {
    try { readerRef.current?.releaseLock(); } catch {}
    try { await port.close?.(); } catch {}
    await new Promise(r => setTimeout(r, 60));
    try {
      await port.open({ baudRate, dataBits, parity, stopBits, flowControl: "none" });
      if (port.setSignals) await port.setSignals({ dataTerminalReady: true, requestToSend: true });
    } catch (e: any) {
      const msg = String(e?.message ?? e);
      setLog(p => [`[openWithConfig error] ${msg}`, ...p].slice(0,80));
      setStatus(`Error abriendo puerto: ${msg}`);
      throw e;
    }
    await new Promise(r => setTimeout(r, 40));
  }
  \<close>
\<close>

definition openWithConfig ::
  "SerialPortLike \<Rightarrow> nat \<Rightarrow> nat \<Rightarrow> Parity \<Rightarrow> nat \<Rightarrow> UI \<Rightarrow> (string + unit) \<times> UI" where
  "openWithConfig port b db p sb ui =
     (case openError port b db p sb of
        None \<Rightarrow> (Inr (), ui)
      | Some msg \<Rightarrow> (Inl msg, (setLog (LogOpenError msg) ui)\<lparr>status := OpenFailed msg\<rparr>))"

text \<open>
  \<^verbatim>\<open>
  const PROBE_MS = 1800; // escucha por combinacion
  async function probeOnce(port, cfg) {
    try {
      await openWithConfig(port, cfg.baudRate, cfg.dataBits, cfg.parity, cfg.stopBits);
      const decoder = new TextDecoderStream("ascii", { fatal: false, ignoreBOM: true });
      const lined = port.readable!.pipeThrough(decoder).pipeThrough(makeLineTransformer(cfg.delimiter));
      const reader = lined.getReader();
      const endAt = Date.now() + PROBE_MS;
      while (Date.now() < endAt) {
        const { value, done } = await reader.read();
        if (done) break;
        if (typeof value !== "string") continue;
        const raw = value.trim();
        if (!raw) continue;
        const parsed = parseWeight(raw);
        if (parsed) {
          reader.releaseLock();
          return { ok: true, sample: parsed, raw };
        }
      }
      reader.releaseLock();
      return { ok: false };
    } catch (e: any) {
      setLog(p => [`[probeOnce] fallo en ${cfg.name}: ${String(e?.message ?? e)}`, ...p].slice(0,80));
      return { ok: false };
    }
  }
  \<close>
  \<open>Matched sample raw\<close> is \<^verbatim>\<open>{ ok: true, sample, raw }\<close>, \<open>Unmatched\<close> is \<^verbatim>\<open>{ ok: false }\<close>.
  The stream delivers strings, so the \<^verbatim>\<open>typeof\<close> test never holds; \<^verbatim>\<open>if (parsed)\<close> holds
  for a text that is not empty.
  \<open>probeLoop\<close> is the \<^verbatim>\<open>while\<close> loop: \<open>now\<close> is what \<^verbatim>\<open>Date.now()\<close> shows at the head of
  the loop. The deadline is looked at only there: the \<^verbatim>\<open>await\<close> of the read is not
  raced against a timer, so on \<open>Silent\<close> the loop, and with it \<open>probeOnce\<close>, does not
  return (\<open>None\<close>). \<open>probeOnce_try\<close> is the body of \<^verbatim>\<open>try\<close>; \<open>Inl\<close> is an exception
  on its way to \<^verbatim>\<open>catch\<close>.
\<close>

datatype ProbeResult = Matched string string | Unmatched

definition PROBE_MS :: int where
  "PROBE_MS = 1800"

fun probeLoop :: "int \<Rightarrow> int \<Rightarrow> Reader \<Rightarrow> (string + ProbeResult) option" where
  "probeLoop endAt now (Yield line t rest) =
     (if now < endAt
      then (let line1 = trim line
            in if line1 = [] then probeLoop endAt t rest
               else (case parseWeight line1 of
                       None \<Rightarrow> probeLoop endAt t rest
                     | Some parsed \<Rightarrow>
                         if parsed \<noteq> [] then Some (Inr (Matched parsed line1))
                         else probeLoop endAt t rest))
      else Some (Inr Unmatched))"
| "probeLoop endAt now Closed = Some (Inr Unmatched)"
| "probeLoop endAt now (Errored msg) =
     (if now < endAt then Some (Inl msg) else Some (Inr Unmatched))"
| "probeLoop endAt now Silent =
     (if now < endAt then None else Some (Inr Unmatched))"

definition probeOnce_try ::
  "SerialPortLike \<Rightarrow> DetectedConfig \<Rightarrow> UI \<Rightarrow> ((string + ProbeResult) \<times> UI) option" where
  "probeOnce_try port cfg ui =
     (case openWithConfig port (baudRate cfg) (dataBits cfg) (parity cfg) (stopBits cfg) ui of
        (Inl e, ui1) \<Rightarrow> Some (Inl e, ui1)
      | (Inr _, ui1) \<Rightarrow>
          (let endAt = clock port cfg + PROBE_MS
           in case probeLoop endAt (clock port cfg) (lined port cfg) of
                None \<Rightarrow> None
              | Some r \<Rightarrow> Some (r, ui1)))"

definition probeOnce ::
  "SerialPortLike \<Rightarrow> DetectedConfig \<Rightarrow> UI \<Rightarrow> (ProbeResult \<times> UI) option" where
  "probeOnce port cfg ui =
     (case probeOnce_try port cfg ui of
        None \<Rightarrow> None
      | Some (Inr r, ui1) \<Rightarrow> Some (r, ui1)
      | Some (Inl e, ui1) \<Rightarrow> Some (Unmatched, setLog (LogProbeFailed (name cfg) e) ui1))"

text \<open>
  In \<^verbatim>\<open>part_002\<close> the two functions write nothing:
  \<^verbatim>\<open>
  async function openWithConfig(port, baudRate, dataBits, parity, stopBits) {
    try { readerRef.current?.releaseLock(); } catch {}
    try { await port.close?.(); } catch {}
    await port.open({ baudRate, dataBits, parity, stopBits, flowControl: "none" });
    if (port.setSignals) await port.setSignals({ dataTerminalReady: true, requestToSend: true });
  }

  async function probeOnce(port, cfg) {
    try {
      await openWithConfig(port, cfg.baudRate, cfg.dataBits, cfg.parity, cfg.stopBits);
      ... (the same lines as above, from the decoder to the last return)
    } catch {
      return { ok: false };
    }
  }
  \<close>
  The body of \<^verbatim>\<open>try\<close> after the opening, the loop included, and \<^verbatim>\<open>PROBE_MS\<close> are
  letter for letter those of \<^verbatim>\<open>test.tsx\<close>. An exception of \<^verbatim>\<open>port.open\<close> leaves
  \<^verbatim>\<open>openWithConfig\<close> as it is and the state is not written.
\<close>

definition openWithConfig_part_002 ::
  "SerialPortLike \<Rightarrow> nat \<Rightarrow> nat \<Rightarrow> Parity \<Rightarrow> nat \<Rightarrow> string + unit" where
  "openWithConfig_part_002 port b db p sb =
     (case openError port b db p sb of
        None \<Rightarrow> Inr ()
      | Some msg \<Rightarrow> Inl msg)"

definition probeOnce_try_part_002 ::
  "SerialPortLike \<Rightarrow> DetectedConfig \<Rightarrow> (string + ProbeResult) option" where
  "probeOnce_try_part_002 port cfg =
     (case openWithConfig_part_002 port (baudRate cfg) (dataBits cfg) (parity cfg) (stopBits cfg) of
        Inl e \<Rightarrow> Some (Inl e)
      | Inr _ \<Rightarrow>
          (let endAt = clock port cfg + PROBE_MS
           in probeLoop endAt (clock port cfg) (lined port cfg)))"

definition probeOnce_part_002 ::
  "SerialPortLike \<Rightarrow> DetectedConfig \<Rightarrow> UI \<Rightarrow> (ProbeResult \<times> UI) option" where
  "probeOnce_part_002 port cfg ui =
     (case probeOnce_try_part_002 port cfg of
        None \<Rightarrow> None
      | Some (Inr r) \<Rightarrow> Some (r, ui)
      | Some (Inl e) \<Rightarrow> Some (Unmatched, ui))"

subsection \<open>\<^verbatim>\<open>autoDetect\<close>\<close>

text \<open>
  \<^verbatim>\<open>
  const BAUDS = [1200, 2400, 4800, 9600, 19200] as const;
  const SETUPS = [
    { dataBits: 8 as const, parity: "none" as const, stopBits: 1 as const, name: "8N1" },
    { dataBits: 7 as const, parity: "even" as const, stopBits: 1 as const, name: "7E1" },
  ];
  const DELIMS = ["\r", "\r\n", "\n"] as const;

  async function autoDetect(port: SerialPortLike): Promise<DetectedConfig | null> {
    for (const b of BAUDS) {
      for (const s of SETUPS) {
        for (const d of DELIMS) {
          const cfg: DetectedConfig = {
            baudRate: b, dataBits: s.dataBits, parity: s.parity, stopBits: 1, delimiter: d,
            name: `${b} ${s.name} ${d === "\r" ? "CR" : d === "\r\n" ? "CRLF" : "LF"}`
          };
          setStatus(`Probando ${cfg.name}...`);
          const r = await probeOnce(port, cfg);
          if (r.ok) {
            setRawLine(r.raw!); setWeight(r.sample!);
            setLog(p => [`Detectado ${cfg.name} | RAW='${r.raw}' Peso=${r.sample}`, ...p].slice(0, 80));
            return cfg;
          }
        }
      }
    }
    return null;
  }
  \<close>
  This is \<^verbatim>\<open>part_002\<close>. The function is letter for letter the same in \<^verbatim>\<open>test.tsx\<close>,
  where it calls the \<^verbatim>\<open>probeOnce\<close> of that file and the tables are
  \<^verbatim>\<open>
  const BAUDS = [1200] as const;
  const SETUPS = [
    { dataBits: 7 as const, parity: "none" as const, stopBits: 1 as const, name: "7N1" },
    { dataBits: 8 as const, parity: "none" as const, stopBits: 1 as const, name: "8N1" },
  ];
  const DELIMS = ["\r"] as const;
  \<close>
  The three loops are three recursive functions, each returning as soon as a probe
  matches. \<open>autoDetect_with\<close> is the function with the probe and the tables as
  arguments; \<open>autoDetect\<close> is the one of \<^verbatim>\<open>part_002\<close>, with the tables \<open>BAUDS\<close>, \<open>SETUPS\<close>,
  \<open>DELIMS\<close> and the probe of that file, \<open>autoDetect_test\<close> the one of \<^verbatim>\<open>test.tsx\<close>, with
  \<open>BAUDS_test\<close>, \<open>SETUPS_test\<close>, \<open>DELIMS_test\<close> and the probe that logs.
\<close>

definition CR :: string where
  "CR = [CHR 0x0D]"

definition LF :: string where
  "LF = [CHR 0x0A]"

definition CRLF :: string where
  "CRLF = [CHR 0x0D, CHR 0x0A]"

definition BAUDS :: "nat list" where
  "BAUDS = [1200, 2400, 4800, 9600, 19200]"

definition SETUPS :: "Setup list" where
  "SETUPS =
     [\<lparr>setup_dataBits = 8, setup_parity = ParityNone, setup_name = ''8N1''\<rparr>,
      \<lparr>setup_dataBits = 7, setup_parity = ParityEven, setup_name = ''7E1''\<rparr>]"

definition DELIMS :: "string list" where
  "DELIMS = [CR, CRLF, LF]"

definition BAUDS_test :: "nat list" where
  "BAUDS_test = [1200]"

definition SETUPS_test :: "Setup list" where
  "SETUPS_test =
     [\<lparr>setup_dataBits = 7, setup_parity = ParityNone, setup_name = ''7N1''\<rparr>,
      \<lparr>setup_dataBits = 8, setup_parity = ParityNone, setup_name = ''8N1''\<rparr>]"

definition DELIMS_test :: "string list" where
  "DELIMS_test = [CR]"

definition makeConfig :: "nat \<Rightarrow> Setup \<Rightarrow> string \<Rightarrow> DetectedConfig" where
  "makeConfig b s d =
     \<lparr>baudRate = b, dataBits = setup_dataBits s, parity = setup_parity s, stopBits = 1,
      delimiter = d,
      name = natToString b @ '' '' @ setup_name s @ '' '' @
               (if d = CR then ''CR'' else if d = CRLF then ''CRLF'' else ''LF'')\<rparr>"

type_synonym probe = "DetectedConfig \<Rightarrow> UI \<Rightarrow> (ProbeResult \<times> UI) option"

fun forDelims :: "probe \<Rightarrow> nat \<Rightarrow> Setup \<Rightarrow> string list \<Rightarrow> UI \<Rightarrow> (DetectedConfig option \<times> UI) option" where
  "forDelims pr b s [] ui = Some (None, ui)"
| "forDelims pr b s (d # ds) ui =
     (let cfg = makeConfig b s d
      in case pr cfg (ui\<lparr>status := Probing (name cfg)\<rparr>) of
           None \<Rightarrow> None
         | Some (Unmatched, ui1) \<Rightarrow> forDelims pr b s ds ui1
         | Some (Matched sample line, ui1) \<Rightarrow>
             Some (Some cfg,
                   setLog (LogDetected (name cfg) line sample)
                     (ui1\<lparr>rawLine := line, weight := sample\<rparr>)))"

fun forSetups :: "probe \<Rightarrow> nat \<Rightarrow> Setup list \<Rightarrow> string list \<Rightarrow> UI \<Rightarrow> (DetectedConfig option \<times> UI) option" where
  "forSetups pr b [] delims ui = Some (None, ui)"
| "forSetups pr b (s # ss) delims ui =
     (case forDelims pr b s delims ui of
        None \<Rightarrow> None
      | Some (Some cfg, ui1) \<Rightarrow> Some (Some cfg, ui1)
      | Some (None, ui1) \<Rightarrow> forSetups pr b ss delims ui1)"

fun forBauds :: "probe \<Rightarrow> nat list \<Rightarrow> Setup list \<Rightarrow> string list \<Rightarrow> UI \<Rightarrow> (DetectedConfig option \<times> UI) option" where
  "forBauds pr [] setups delims ui = Some (None, ui)"
| "forBauds pr (b # bs) setups delims ui =
     (case forSetups pr b setups delims ui of
        None \<Rightarrow> None
      | Some (Some cfg, ui1) \<Rightarrow> Some (Some cfg, ui1)
      | Some (None, ui1) \<Rightarrow> forBauds pr bs setups delims ui1)"

definition autoDetect_with ::
  "probe \<Rightarrow> nat list \<Rightarrow> Setup list \<Rightarrow> string list \<Rightarrow> UI \<Rightarrow> (DetectedConfig option \<times> UI) option" where
  "autoDetect_with pr bauds setups delims ui = forBauds pr bauds setups delims ui"

definition autoDetect :: "SerialPortLike \<Rightarrow> UI \<Rightarrow> (DetectedConfig option \<times> UI) option" where
  "autoDetect port ui = autoDetect_with (probeOnce_part_002 port) BAUDS SETUPS DELIMS ui"

definition autoDetect_test :: "SerialPortLike \<Rightarrow> UI \<Rightarrow> (DetectedConfig option \<times> UI) option" where
  "autoDetect_test port ui = autoDetect_with (probeOnce port) BAUDS_test SETUPS_test DELIMS_test ui"

text \<open>
  The order in which the configurations are tried, as a list: baud rate outermost,
  set-up in the middle, delimiter innermost.
\<close>

definition candidates :: "nat list \<Rightarrow> Setup list \<Rightarrow> string list \<Rightarrow> DetectedConfig list" where
  "candidates bauds setups delims =
     concat (map (\<lambda>b. concat (map (\<lambda>s. map (\<lambda>d. makeConfig b s d) delims) setups)) bauds)"

section \<open>LoopbackTester\<close>

text \<open>
  \<^verbatim>\<open>
  async function loopbackTest(port: SerialPortLike): Promise<boolean> {
    await openWithConfig(port, 9600, 8, "none", 1);
    if (port.setSignals) await port.setSignals({ dataTerminalReady: true, requestToSend: true });
    const token = `LBK${Math.floor(Math.random()*1e6)}\r`;
    await writeToken(port, token);
    const bytes = await readSomeBytes(port, 250);
    if (bytes.length === 0) return false;
    // Volvio el token? Compara por bytes (mas robusto que texto)
    const enc = new TextEncoder().encode(token);
    const hayEco = bytes.join(",").includes(enc.join(","));
    setLog(p => [`Loopback RX HEX: ...`, ...p].slice(0,80));
    return hayEco;
  }
  \<close>
  This is the function of \<^verbatim>\<open>test.tsx\<close>, which opens the port with the
  \<^verbatim>\<open>openWithConfig\<close> of that file.
  \<open>rnd\<close> is the value of \<^verbatim>\<open>Math.floor(Math.random()*1e6)\<close>. The token is ASCII, so
  \<^verbatim>\<open>TextEncoder.encode\<close> gives one byte per character. \<^verbatim>\<open>Uint8Array.join(",")\<close> writes
  each byte in decimal. \<open>Inl\<close> is an exception leaving the function.
\<close>

definition textEncode :: "string \<Rightarrow> byte list" where
  "textEncode s = map (\<lambda>c. of_nat (of_char c)) s"

definition bytesJoin :: "byte list \<Rightarrow> string" where
  "bytesJoin bs = join '','' (map (\<lambda>b. natToString (unat b)) bs)"

definition hayEco :: "byte list \<Rightarrow> byte list \<Rightarrow> bool" where
  "hayEco bytes enc = js_includes (bytesJoin bytes) (bytesJoin enc)"

definition loopbackToken :: "nat \<Rightarrow> string" where
  "loopbackToken rnd = ''LBK'' @ natToString rnd @ CR"

definition loopbackTest :: "SerialPortLike \<Rightarrow> nat \<Rightarrow> UI \<Rightarrow> (string + bool) \<times> UI" where
  "loopbackTest port rnd ui =
     (case openWithConfig port 9600 8 ParityNone 1 ui of
        (Inl e, ui1) \<Rightarrow> (Inl e, ui1)
      | (Inr _, ui1) \<Rightarrow>
          (let token = loopbackToken rnd
           in case echoed port (textEncode token) of
                Inl e \<Rightarrow> (Inl e, ui1)
              | Inr bytes \<Rightarrow>
                  if length bytes = 0 then (Inr False, ui1)
                  else (let enc = textEncode token
                        in (Inr (hayEco bytes enc), setLog (LogLoopbackRx bytes) ui1))))"

section \<open>Reference formulations\<close>

text \<open>
  The definitions of this section are not translations of code. They say, in the words
  of the specification, what the code above is compared with.
\<close>

text \<open>
  A decoder variant maps a trimmed line to a value, a format tag and an optional flag,
  or rejects it. \<open>firstMatch\<close> tries a list of variants in order and returns what the
  first one that matches returns.
\<close>

fun firstMatch :: "('a \<Rightarrow> 'b option) list \<Rightarrow> 'a \<Rightarrow> 'b option" where
  "firstMatch [] x = None"
| "firstMatch (v # vs) x = (case v x of Some r \<Rightarrow> Some r | None \<Rightarrow> firstMatch vs x)"

definition flaggedVariant :: "string \<Rightarrow> (rat \<times> Source \<times> char option) option" where
  "flaggedVariant s =
     (case matchFlagged ''PNTBR'' s of
        None \<Rightarrow> None
      | Some (c, ds) \<Rightarrow>
          Some (of_nat (digitsToNat ds) * (1 / 1000), Src_GRAMS5_P, Some (toUpperCase c)))"

definition bareVariant :: "Unit5 \<Rightarrow> Mode \<Rightarrow> string \<Rightarrow> (rat \<times> Source \<times> char option) option" where
  "bareVariant assume5 mode s =
     (if fixedDigits 5 s
      then (if mode = KG5 \<or> (mode = AUTO \<and> assume5 = KG)
            then Some (of_nat (digitsToNat s), Src_KG5, None)
            else Some (of_nat (digitsToNat s) * (1 / 1000), Src_GRAMS5, None))
      else None)"

definition genericVariant :: "string \<Rightarrow> (rat \<times> Source \<times> char option) option" where
  "genericVariant s =
     (case genericSearch s of
        None \<Rightarrow> None
      | Some m \<Rightarrow> Some (toNumber (replaceFirst CHR '','' CHR ''.'' m), Src_GENERIC, None))"

definition toParseResult :: "string \<Rightarrow> (rat \<times> Source \<times> char option) option \<Rightarrow> ParseResult" where
  "toParseResult line r =
     (case r of
        None \<Rightarrow> \<lparr>ok = False, raw = line, kg = None, source = None, flag = None\<rparr>
      | Some (v, src, fl) \<Rightarrow>
          \<lparr>ok = True, raw = line, kg = Some v, source = Some src, flag = fl\<rparr>)"

text \<open>The sign that stands immediately before a run of digits, if one does.\<close>

definition signBefore :: "string \<Rightarrow> string" where
  "signBefore pre = (if pre \<noteq> [] \<and> isSign (last pre) then [last pre] else [])"

text \<open>The number a sign text and a magnitude denote.\<close>

definition signedValue :: "string \<Rightarrow> rat \<Rightarrow> rat" where
  "signedValue sg x = (if sg = ''-'' then - x else x)"

text \<open>
  The values a sequence of timed lines decodes to, in arrival order, and the last \<open>n\<close>
  elements of a list.
\<close>

definition decodedValues :: "(int \<times> string) list \<Rightarrow> rat list" where
  "decodedValues evs = List.map_filter (\<lambda>ev. parseLaTorre (snd ev)) evs"

definition lastN :: "nat \<Rightarrow> 'a list \<Rightarrow> 'a list" where
  "lastN n xs = drop (length xs - n) xs"

text \<open>
  A linear search through a list of configurations: probe each in order, stop at the
  first that matches. The effects on the component state are those of the body of the
  innermost loop of \<^verbatim>\<open>autoDetect\<close>.
\<close>

fun tryConfigs :: "probe \<Rightarrow> DetectedConfig list \<Rightarrow> UI \<Rightarrow> (DetectedConfig option \<times> UI) option" where
  "tryConfigs pr [] ui = Some (None, ui)"
| "tryConfigs pr (cfg # cfgs) ui =
     (case pr cfg (ui\<lparr>status := Probing (name cfg)\<rparr>) of
        None \<Rightarrow> None
      | Some (Unmatched, ui1) \<Rightarrow> tryConfigs pr cfgs ui1
      | Some (Matched sample line, ui1) \<Rightarrow>
          Some (Some cfg,
                setLog (LogDetected (name cfg) line sample)
                  (ui1\<lparr>rawLine := line, weight := sample\<rparr>)))"

chapter \<open>Properties\<close>

section \<open>LineFramer\<close>

lemma indexOf_append: "indexOf d s = Some i \<Longrightarrow> indexOf d (s @ c) = Some i"
proof (induction s arbitrary: i)
  case Nil
  then show ?case by (cases c) (auto split: if_splits)
next
  case (Cons x xs)
  show ?case
  proof (cases "prefix d (x # xs)")
    case True
    then have "prefix d ((x # xs) @ c)" by (rule prefix_prefix)
    with True Cons.prems show ?thesis by simp
  next
    case False
    then obtain j where j: "indexOf d xs = Some j" "i = Suc j"
      using Cons.prems by auto
    have "length d \<le> length (x # xs)"
      using indexOf_bounds [OF j(1)] by simp
    then have "\<not> prefix d ((x # xs) @ c)"
      using False prefix_length_prefix [of d "(x # xs) @ c" "x # xs"] by auto
    then show ?thesis using j Cons.IH [OF j(1)] by simp
  qed
qed

lemma split_sep_nonempty: "d \<noteq> [] \<Longrightarrow> split_sep d s \<noteq> []"
  by (subst split_sep.simps) (simp split: option.split)

lemma pop_or_empty_last: "parts \<noteq> [] \<Longrightarrow> pop_or_empty parts = last parts"
  by (cases parts rule: rev_cases) (simp_all add: pop_or_empty_def)

lemma split_sep_empty_delim: "split_sep [] s = map (\<lambda>c. [c]) s"
  by (subst split_sep.simps) simp

lemma split_sep_append_empty_delim:
  "split_sep [] (s @ c) =
     butlast (split_sep [] s) @ split_sep [] (pop_or_empty (split_sep [] s) @ c)"
proof (cases s rule: rev_cases)
  case Nil
  then show ?thesis by (simp add: split_sep_empty_delim pop_or_empty_def)
next
  case (snoc ys y)
  then show ?thesis
    by (simp add: split_sep_empty_delim pop_or_empty_def butlast_append)
qed

text \<open>
  Cutting a text that has grown by \<open>c\<close>: the parts already cut stay, and only the
  last part, with \<open>c\<close> appended, is cut again. An occurrence of the delimiter that
  lies in \<open>s\<close> is found at the same place in \<open>s @ c\<close>; one that straddles the end of
  \<open>s\<close> lies in the last part of \<open>s\<close> followed by \<open>c\<close>.
\<close>

lemma split_sep_append_nonempty_delim:
  "d \<noteq> [] \<Longrightarrow>
   split_sep d (s @ c) = butlast (split_sep d s) @ split_sep d (last (split_sep d s) @ c)"
proof (induction d s rule: split_sep.induct)
  case (1 d s)
  show ?case
  proof (cases "indexOf d s")
    case None
    then have "split_sep d s = [s]"
      using "1.prems" by (subst split_sep.simps) simp
    then show ?thesis by simp
  next
    case (Some i)
    let ?r = "drop (i + length d) s"
    have b: "i + length d \<le> length s" using Some by (rule indexOf_bounds)
    have s1: "split_sep d s = take i s # split_sep d ?r"
      using "1.prems" Some by (subst split_sep.simps) simp
    have ia: "indexOf d (s @ c) = Some i" using Some by (rule indexOf_append)
    have s2: "split_sep d (s @ c) = take i s # split_sep d (?r @ c)"
      using "1.prems" ia b by (subst split_sep.simps) simp
    have ih: "split_sep d (?r @ c) =
                butlast (split_sep d ?r) @ split_sep d (last (split_sep d ?r) @ c)"
      using "1.IH" [OF "1.prems" Some] "1.prems" by simp
    have ne: "split_sep d ?r \<noteq> []" using "1.prems" by (rule split_sep_nonempty)
    show ?thesis using s1 s2 ih ne by simp
  qed
qed

lemma split_sep_append:
  "split_sep d (s @ c) =
     butlast (split_sep d s) @ split_sep d (pop_or_empty (split_sep d s) @ c)"
proof (cases "d = []")
  case True
  then show ?thesis using split_sep_append_empty_delim by blast
next
  case False
  then show ?thesis
    using split_sep_append_nonempty_delim [OF False, of s c]
    by (simp add: pop_or_empty_last split_sep_nonempty)
qed

text \<open>
  The invariant of the stream: after the text \<open>t\<close> the buffer is the last part of
  \<open>t\<close> and the lines enqueued so far are the parts before it.
\<close>

lemma pipeThrough_invariant:
  "butlast (split_sep d t) @ pipeThrough d (pop_or_empty (split_sep d t)) chunks =
   butlast (split_sep d (t @ concat chunks)) @
     flush (pop_or_empty (split_sep d (t @ concat chunks)))"
proof (induction chunks arbitrary: t)
  case Nil
  then show ?case by simp
next
  case (Cons c cs)
  let ?buf = "pop_or_empty (split_sep d t)"
  let ?parts = "split_sep d (?buf @ c)"
  have sp: "split_sep d (t @ c) = butlast (split_sep d t) @ ?parts"
    by (rule split_sep_append)
  have tr: "transform d ?buf c = (pop_or_empty ?parts, butlast ?parts)"
    by (simp add: transform_def Let_def)
  show ?case
  proof (cases "?parts = []")
    case True
    then have d: "d = []" using split_sep_nonempty by blast
    with True have e: "?buf = []" "c = []" by (simp_all add: split_sep_empty_delim)
    have "transform d ?buf c = (?buf, [])" using tr True e by (simp add: pop_or_empty_def)
    then show ?thesis using Cons.IH [of t] e by simp
  next
    case False
    have pl: "pop_or_empty (split_sep d (t @ c)) = pop_or_empty ?parts"
      using False sp by (simp add: pop_or_empty_last)
    have bl: "butlast (split_sep d (t @ c)) = butlast (split_sep d t) @ butlast ?parts"
      using False sp by (simp add: butlast_append)
    show ?thesis
      using Cons.IH [of "t @ c"] pl bl tr by simp
  qed
qed

text \<open>
  What \<open>split_sep\<close> returns are the segments between delimiters: joined with the
  delimiter they give the text back, and no segment contains the delimiter.
\<close>

lemma indexOf_occurrence:
  "indexOf d s = Some i \<Longrightarrow> take i s @ d @ drop (i + length d) s = s"
proof (induction s arbitrary: i)
  case Nil
  then show ?case by (simp split: if_splits)
next
  case (Cons x xs)
  show ?case
  proof (cases "prefix d (x # xs)")
    case True
    then have i: "i = 0" using Cons.prems by simp
    obtain r where "x # xs = d @ r" using True by (auto simp: prefix_def)
    then show ?thesis using i by simp
  next
    case False
    then obtain j where j: "indexOf d xs = Some j" "i = Suc j" using Cons.prems by auto
    then show ?thesis using Cons.IH [OF j(1)] by simp
  qed
qed

lemma join_split_sep: "join d (split_sep d s) = s"
proof (cases "d = []")
  case True
  have "join [] (map (\<lambda>c. [c]) s) = s"
  proof (induction s)
    case Nil
    then show ?case by simp
  next
    case (Cons c s)
    then show ?case by (cases s) simp_all
  qed
  then show ?thesis using True by (simp add: split_sep_empty_delim)
next
  case False
  then show ?thesis
  proof (induction d s rule: split_sep.induct)
    case (1 d s)
    show ?case
    proof (cases "indexOf d s")
      case None
      then show ?thesis using "1.prems" by (subst split_sep.simps) simp
    next
      case (Some i)
      let ?r = "drop (i + length d) s"
      obtain p ps where ps: "split_sep d ?r = p # ps"
        using split_sep_nonempty [OF "1.prems", of ?r] by (cases "split_sep d ?r") auto
      have "join d (split_sep d s) = take i s @ d @ join d (split_sep d ?r)"
        using "1.prems" Some ps by (subst split_sep.simps) simp
      then show ?thesis
        using "1.IH" [OF "1.prems" Some "1.prems"] indexOf_occurrence [OF Some] by simp
    qed
  qed
qed

lemma indexOf_before_first:
  assumes "d \<noteq> []" and "indexOf d s = Some i"
  shows "indexOf d (take i s) = None"
proof (rule ccontr)
  assume "indexOf d (take i s) \<noteq> None"
  then obtain j where j: "indexOf d (take i s) = Some j" by auto
  then have "indexOf d (take i s @ drop i s) = Some j" by (rule indexOf_append)
  then have "j = i" using assms(2) by simp
  moreover have "j + length d \<le> length (take i s)" using j by (rule indexOf_bounds)
  ultimately show False using assms(1) by (cases d) simp_all
qed

lemma split_sep_parts_free:
  "d \<noteq> [] \<Longrightarrow> part \<in> set (split_sep d s) \<Longrightarrow> indexOf d part = None"
proof (induction d s rule: split_sep.induct)
  case (1 d s)
  show ?case
  proof (cases "indexOf d s")
    case None
    then show ?thesis using "1.prems" by (subst (asm) split_sep.simps) simp
  next
    case (Some i)
    have "part = take i s \<or> part \<in> set (split_sep d (drop (i + length d) s))"
      using "1.prems" Some by (subst (asm) split_sep.simps) simp
    then show ?thesis
      using "1.IH" [OF "1.prems"(1) Some "1.prems"(1)] indexOf_before_first [OF "1.prems"(1) Some]
      by blast
  qed
qed

text \<open>
  Claim C1. For every delimiter and every way of cutting a text into chunks (empty
  chunks included), the lines the framer emits, \<open>transform\<close> on each chunk and
  \<open>flush\<close> at the end, are the parts of \<^verbatim>\<open>text.split(delimiter)\<close> in order: every part
  before the last one, empty parts included, and then the last part (the tail after
  the final delimiter) as one more line when it is not empty, nothing when it is.
  The right-hand side mentions neither the chunks nor a function of the framer.
\<close>

theorem makeLineTransformer_chunk_independent:
  "makeLineTransformer d chunks =
     (let parts = split_sep d (concat chunks)
      in if parts = [] then []
         else butlast parts @ (if last parts = [] then [] else [last parts]))"
proof -
  let ?parts = "split_sep d (concat chunks)"
  have e: "split_sep d [] = (if d = [] then [] else [[]])"
    by (subst split_sep.simps) simp
  then have "butlast (split_sep d []) = []" "pop_or_empty (split_sep d []) = []"
    by (simp_all add: pop_or_empty_def)
  then have m: "makeLineTransformer d chunks = butlast ?parts @ flush (pop_or_empty ?parts)"
    using pipeThrough_invariant [of d "[]" chunks] by (simp add: makeLineTransformer_def)
  show ?thesis
  proof (cases "?parts = []")
    case True
    then show ?thesis using m by (simp add: pop_or_empty_def flush_def)
  next
    case False
    then have "pop_or_empty ?parts = last ?parts" by (rule pop_or_empty_last)
    then show ?thesis using m False by (simp add: flush_def Let_def)
  qed
qed

text \<open>
  Three chunks that cut one CR LF in two and end without a delimiter: the lines are
  those of the whole text, the empty one between two delimiters included, and the tail
  \<^verbatim>\<open>"c"\<close> is the last line. A text that ends with its delimiter has an empty tail and
  gives no line for it; two delimiters in a row give one empty line between them. With
  the empty delimiter every character is a line.
\<close>

theorem makeLineTransformer_chunk_independent_witness:
  "makeLineTransformer CRLF [''a'' @ CR, LF @ ''b'' @ CRLF, CRLF @ ''c''] = [''a'', ''b'', [], ''c'']
   \<and> split_sep CRLF (''a'' @ CRLF @ ''b'' @ CRLF @ CRLF @ ''c'') = [''a'', ''b'', [], ''c'']
   \<and> makeLineTransformer CR [''a'', CR] = [''a'']
   \<and> makeLineTransformer CR [''a'' @ CR @ CR] = [''a'', []]
   \<and> makeLineTransformer [] [''a'', ''bc''] = [''a'', ''b'', ''c'']"
proof -
  have c: "concat [''a'' @ CR, LF @ ''b'' @ CRLF, CRLF @ ''c''] =
      ''a'' @ CRLF @ ''b'' @ CRLF @ CRLF @ ''c''"
    by (simp add: CR_def LF_def CRLF_def)
  have s: "split_sep CRLF (''a'' @ CRLF @ ''b'' @ CRLF @ CRLF @ ''c'') = [''a'', ''b'', [], ''c'']"
    by (simp add: split_sep.simps CRLF_def)
  have s1: "split_sep CR (concat [''a'', CR]) = [''a'', []]"
    by (simp add: split_sep.simps CR_def)
  have s2: "split_sep CR (concat [''a'' @ CR @ CR]) = [''a'', [], []]"
    by (simp add: split_sep.simps CR_def)
  have s3: "split_sep [] (concat [''a'', ''bc'']) = [''a'', ''b'', ''c'']"
    by (simp add: split_sep_empty_delim)
  show ?thesis
    using makeLineTransformer_chunk_independent [of CRLF "[''a'' @ CR, LF @ ''b'' @ CRLF, CRLF @ ''c'']"]
      makeLineTransformer_chunk_independent [of CR "[''a'', CR]"]
      makeLineTransformer_chunk_independent [of CR "[''a'' @ CR @ CR]"]
      makeLineTransformer_chunk_independent [of "[]" "[''a'', ''bc'']"]
    unfolding c s s1 s2 s3 by (simp add: Let_def)
qed

section \<open>TelegramDecoder\<close>

subsection \<open>Characters and trimming\<close>

lemma digit_not_space: "isDigit c \<Longrightarrow> \<not> isWhiteSpace c"
  by (auto simp: isDigit_def isWhiteSpace_def)

lemma toUpperCase_letters: "c \<in> set ''PNTBR'' \<Longrightarrow> toUpperCase c = c"
  by (auto simp: toUpperCase_def)

lemma toUpperCase_digit: "isDigit c \<Longrightarrow> toUpperCase c = c"
  by (auto simp: toUpperCase_def isDigit_def)

lemma toUpperCase_D: "toUpperCase c = CHR ''D'' \<longleftrightarrow> c = CHR ''D'' \<or> c = CHR ''d''"
proof
  assume a: "toUpperCase c = CHR ''D''"
  let ?n = "of_char c :: nat"
  have lt: "?n < 256" by simp
  show "c = CHR ''D'' \<or> c = CHR ''d''"
  proof (cases "97 \<le> ?n \<and> ?n \<le> 122")
    case True
    then have "char_of (?n - 32) = CHR ''D''" using a by (simp add: toUpperCase_def)
    then have "(of_char (char_of (?n - 32) :: char) :: nat) = of_char CHR ''D''" by simp
    then have "(?n - 32) mod 256 = 68" by simp
    then have "?n = 100" using True lt by simp
    then have "?n = of_char CHR ''d''" by simp
    then have "c = CHR ''d''" by (simp only: of_char_eq_iff)
    then show ?thesis by simp
  next
    case False
    then show ?thesis using a by (auto simp: toUpperCase_def split: if_splits)
  qed
next
  assume "c = CHR ''D'' \<or> c = CHR ''d''"
  moreover have "toUpperCase CHR ''D'' = CHR ''D''" "toUpperCase CHR ''d'' = CHR ''D''"
    by code_simp+
  ultimately show "toUpperCase c = CHR ''D''" by auto
qed

lemma trimEnd_id: "s \<noteq> [] \<Longrightarrow> \<not> isWhiteSpace (last s) \<Longrightarrow> trimEnd s = s"
  by (cases s rule: rev_cases) (simp_all add: trimEnd_def)

lemma trimStart_id: "s \<noteq> [] \<Longrightarrow> \<not> isWhiteSpace (hd s) \<Longrightarrow> trimStart s = s"
  by (cases s) (simp_all add: trimStart_def)

lemma trim_id: "s \<noteq> [] \<Longrightarrow> \<not> isWhiteSpace (hd s) \<Longrightarrow> \<not> isWhiteSpace (last s) \<Longrightarrow> trim s = s"
  by (simp add: trim_def trimStart_id trimEnd_id)

lemma fixedDigits_ends:
  "0 < n \<Longrightarrow> fixedDigits n ds \<Longrightarrow> ds \<noteq> [] \<and> isDigit (last ds) \<and> isDigit (hd ds)"
  by (cases ds) (auto simp: fixedDigits_def list_all_iff)

lemma letters_not_space: "c \<in> set ''PNTBR'' \<Longrightarrow> \<not> isWhiteSpace c"
  by (auto simp: isWhiteSpace_def)

lemma trim_flagged:
  assumes "c \<in> set ''PNTBR''" "fixedDigits 5 ds"
  shows "trim (c # ds) = c # ds" "trim (c # CHR '' '' # ds) = c # CHR '' '' # ds"
    "trim ds = ds"
proof -
  have d: "ds \<noteq> []" "isDigit (last ds)" "isDigit (hd ds)"
    using fixedDigits_ends [of 5 ds] assms(2) by simp_all
  show "trim (c # ds) = c # ds"
    using d assms(1) by (intro trim_id) (simp_all add: digit_not_space letters_not_space)
  show "trim (c # CHR '' '' # ds) = c # CHR '' '' # ds"
    using d assms(1) by (intro trim_id) (simp_all add: digit_not_space letters_not_space)
  show "trim ds = ds"
    using d by (intro trim_id) (simp_all add: digit_not_space)
qed

lemma matchFlagged_plain:
  assumes "toUpperCase c \<in> set letters" "fixedDigits 5 ds"
  shows "matchFlagged letters (c # ds) = Some (c, ds)"
proof -
  obtain w r where ds: "ds = w # r" using assms(2) by (cases ds) (auto simp: fixedDigits_def)
  have "\<not> isWhiteSpace w" using assms(2) ds fixedDigits_ends [of 5 ds]
    by (simp add: digit_not_space)
  then show ?thesis using assms ds by (simp add: matchFlagged_def)
qed

lemma matchFlagged_spaced:
  assumes "toUpperCase c \<in> set letters" "fixedDigits 5 ds" "isWhiteSpace w"
  shows "matchFlagged letters (c # w # ds) = Some (c, ds)"
  using assms by (simp add: matchFlagged_def)

lemma matchFlagged_digits_none:
  assumes "fixedDigits 5 ds" "\<forall>x\<in>set letters. \<not> isDigit x"
  shows "matchFlagged letters ds = None"
proof -
  obtain w r where ds: "ds = w # r" using assms(1) by (cases ds) (auto simp: fixedDigits_def)
  have "isDigit w" using assms(1) ds by (simp add: fixedDigits_def)
  then have "toUpperCase w \<notin> set letters" using assms(2) by (auto simp: toUpperCase_digit)
  then show ?thesis using ds by (simp add: matchFlagged_def)
qed

lemma space_is_white: "isWhiteSpace CHR '' ''"
  by (simp add: isWhiteSpace_def)

subsection \<open>Flagged and bare five-digit telegrams\<close>

text \<open>
  Claim C6. A line made of a status letter among P, N, T, B, R, optionally one space,
  and exactly five decimal digits is decoded as a flagged match: \<^verbatim>\<open>parseLatorre5\<close>
  returns the digits read as an integer times the scale factor, tagged with the letter;
  \<^verbatim>\<open>parseLineByMode\<close> returns the digits times 0.001 (\<^verbatim>\<open>FACTOR.GRAMS\<close>), tagged
  \<^verbatim>\<open>GRAMS5_P\<close> with the letter as flag. A line of exactly five bare digits is decoded
  by \<^verbatim>\<open>parseLineByMode\<close> in mode \<^verbatim>\<open>AUTO\<close> as digits times 0.001 when five digits are
  assumed to be grams, and as digits times 1 when they are assumed to be kilograms or
  the mode is \<^verbatim>\<open>KG5\<close>. Numbers are exact rationals here.
\<close>

theorem flagged_and_bare_digits_decode:
  assumes "c \<in> set ''PNTBR''" and "fixedDigits 5 ds"
  shows
    "parseLatorre5_with scale (c # ds) =
       Some \<lparr>reading_value = of_nat (digitsToNat ds) * scale,
             reading_source = ''L1001('' @ [c] @ '')''\<rparr>
     \<and> parseLatorre5_with scale (c # CHR '' '' # ds) =
       Some \<lparr>reading_value = of_nat (digitsToNat ds) * scale,
             reading_source = ''L1001('' @ [c] @ '')''\<rparr>
     \<and> parseLineByMode_with assume5 (c # ds) mode =
       \<lparr>ok = True, raw = c # ds, kg = Some (of_nat (digitsToNat ds) * (1 / 1000)),
        source = Some Src_GRAMS5_P, flag = Some c\<rparr>
     \<and> parseLineByMode_with assume5 (c # CHR '' '' # ds) mode =
       \<lparr>ok = True, raw = c # CHR '' '' # ds, kg = Some (of_nat (digitsToNat ds) * (1 / 1000)),
        source = Some Src_GRAMS5_P, flag = Some c\<rparr>
     \<and> parseLineByMode_with GRAMS ds AUTO =
       \<lparr>ok = True, raw = ds, kg = Some (of_nat (digitsToNat ds) * (1 / 1000)),
        source = Some Src_GRAMS5, flag = None\<rparr>
     \<and> parseLineByMode_with KG ds AUTO =
       \<lparr>ok = True, raw = ds, kg = Some (of_nat (digitsToNat ds) * 1),
        source = Some Src_KG5, flag = None\<rparr>
     \<and> parseLineByMode_with assume5 ds KG5 =
       \<lparr>ok = True, raw = ds, kg = Some (of_nat (digitsToNat ds) * 1),
        source = Some Src_KG5, flag = None\<rparr>"
proof -
  have up: "toUpperCase c = c" using assms(1) by (rule toUpperCase_letters)
  have in1: "toUpperCase c \<in> set ''PN TBR''" "toUpperCase c \<in> set ''PNTBR''"
    using assms(1) up by auto
  note tr = trim_flagged [OF assms]
  have nd: "\<forall>x\<in>set ''PNTBR''. \<not> isDigit x" by (simp add: isDigit_def)
  have f0: "matchFlagged ''PNTBR'' ds = None"
    using assms(2) nd by (rule matchFlagged_digits_none)
  have o5: "matchOnly5 ds = Some ds" using assms(2) by (simp add: matchOnly5_def)
  have p1: "parseLatorre5_with scale (c # ds) =
       Some \<lparr>reading_value = of_nat (digitsToNat ds) * scale,
             reading_source = ''L1001('' @ [c] @ '')''\<rparr>"
    using matchFlagged_plain [OF in1(1) assms(2)] up
    by (simp add: parseLatorre5_with_def tr)
  have p2: "parseLatorre5_with scale (c # CHR '' '' # ds) =
       Some \<lparr>reading_value = of_nat (digitsToNat ds) * scale,
             reading_source = ''L1001('' @ [c] @ '')''\<rparr>"
    using matchFlagged_spaced [OF in1(1) assms(2) space_is_white] up
    by (simp add: parseLatorre5_with_def tr)
  have p3: "parseLineByMode_with assume5 (c # ds) mode =
       \<lparr>ok = True, raw = c # ds, kg = Some (of_nat (digitsToNat ds) * (1 / 1000)),
        source = Some Src_GRAMS5_P, flag = Some c\<rparr>"
    using matchFlagged_plain [OF in1(2) assms(2)] up
    by (simp add: parseLineByMode_with_def tr)
  have p4: "parseLineByMode_with assume5 (c # CHR '' '' # ds) mode =
       \<lparr>ok = True, raw = c # CHR '' '' # ds, kg = Some (of_nat (digitsToNat ds) * (1 / 1000)),
        source = Some Src_GRAMS5_P, flag = Some c\<rparr>"
    using matchFlagged_spaced [OF in1(2) assms(2) space_is_white] up
    by (simp add: parseLineByMode_with_def tr)
  have p5: "parseLineByMode_with GRAMS ds AUTO =
       \<lparr>ok = True, raw = ds, kg = Some (of_nat (digitsToNat ds) * (1 / 1000)),
        source = Some Src_GRAMS5, flag = None\<rparr>"
    using f0 o5 by (simp add: parseLineByMode_with_def tr)
  have p6: "parseLineByMode_with KG ds AUTO =
       \<lparr>ok = True, raw = ds, kg = Some (of_nat (digitsToNat ds) * 1),
        source = Some Src_KG5, flag = None\<rparr>"
    using f0 o5 by (simp add: parseLineByMode_with_def tr)
  have p7: "parseLineByMode_with assume5 ds KG5 =
       \<lparr>ok = True, raw = ds, kg = Some (of_nat (digitsToNat ds) * 1),
        source = Some Src_KG5, flag = None\<rparr>"
    using f0 o5 by (simp add: parseLineByMode_with_def tr)
  show ?thesis using p1 p2 p3 p4 p5 p6 p7 by blast
qed

text \<open>
  The theorem at \<^verbatim>\<open>"P 12345"\<close> and \<^verbatim>\<open>"12345"\<close> with the constants the files ship:
  12.345, 12.345 and, under the kilogram assumption, 12345.
\<close>

theorem flagged_and_bare_digits_decode_witness:
  "CHR ''P'' \<in> set ''PNTBR'' \<and> fixedDigits 5 ''12345''
   \<and> digitsToNat ''12345'' = 12345
   \<and> parseLatorre5 ''P 12345'' =
       Some \<lparr>reading_value = 12345 / 1000, reading_source = ''L1001(P)''\<rparr>
   \<and> parseLineByMode ''P 12345'' MODE =
       \<lparr>ok = True, raw = ''P 12345'', kg = Some (12345 / 1000),
        source = Some Src_GRAMS5_P, flag = Some CHR ''P''\<rparr>
   \<and> parseLineByMode ''12345'' MODE =
       \<lparr>ok = True, raw = ''12345'', kg = Some (12345 / 1000),
        source = Some Src_GRAMS5, flag = None\<rparr>
   \<and> parseLineByMode_with KG ''12345'' AUTO =
       \<lparr>ok = True, raw = ''12345'', kg = Some 12345,
        source = Some Src_KG5, flag = None\<rparr>"
proof -
  have h1: "CHR ''P'' \<in> set ''PNTBR''" by simp
  have h2: "fixedDigits 5 ''12345''" by (simp add: fixedDigits_def isDigit_def)
  have n: "digitsToNat ''12345'' = 12345" by (simp add: digitsToNat_def digitVal_def)
  show ?thesis
    using flagged_and_bare_digits_decode [OF h1 h2, of "1 / 1000" GRAMS AUTO] h1 h2 n
    by (simp add: parseLatorre5_def SCALE_FACTOR_def parseLineByMode_def MODE_def
        ASSUME_5DIGITS_IS_def)
qed

subsection \<open>Evaluating the decoders on a given line\<close>

lemmas eval_defs = trim_def trimStart_def trimEnd_def isWhiteSpace_def fixedDigits_def isDigit_def
  toUpperCase_def digitsToNat_def digitVal_def matchD6_def matchFlagged_def matchOnly5_def
  genericAt_def isSign_def isSeparator_def toNumber_def Let_def char_of_eq_iff

subsection \<open>The explicit-prefix telegram\<close>

lemma matchD6_iff:
  "matchD6 s = Some m \<longleftrightarrow>
     (\<exists>c. s = c # m \<and> (c = CHR ''D'' \<or> c = CHR ''d'') \<and> fixedDigits 6 m)"
  by (cases s) (auto simp: matchD6_def toUpperCase_D)

text \<open>
  Claim C7, as amended. \<^verbatim>\<open>parseLaTorre\<close> accepts a line exactly when its trimmed text
  is the marker letter, \<^verbatim>\<open>D\<close> or \<^verbatim>\<open>d\<close> (the pattern carries the flag \<^verbatim>\<open>i\<close>), followed by
  exactly six decimal digits; the value is then the digits read as an integer, divided
  by 1000. No scale factor enters. Every other line is rejected.
\<close>

theorem parseLaTorre_accepts_exactly_marker_and_six_digits:
  "parseLaTorre line = Some v \<longleftrightarrow>
     (\<exists>c ds. trim line = c # ds \<and> (c = CHR ''D'' \<or> c = CHR ''d'') \<and> fixedDigits 6 ds
        \<and> v = of_nat (digitsToNat ds) / 1000)"
proof
  assume "parseLaTorre line = Some v"
  then obtain m where m: "matchD6 (trim line) = Some m" "v = of_nat (digitsToNat m) / 1000"
    by (auto simp: parseLaTorre_def Let_def split: option.splits)
  then show "\<exists>c ds. trim line = c # ds \<and> (c = CHR ''D'' \<or> c = CHR ''d'') \<and> fixedDigits 6 ds
        \<and> v = of_nat (digitsToNat ds) / 1000"
    using matchD6_iff [of "trim line" m] by blast
next
  assume "\<exists>c ds. trim line = c # ds \<and> (c = CHR ''D'' \<or> c = CHR ''d'') \<and> fixedDigits 6 ds
        \<and> v = of_nat (digitsToNat ds) / 1000"
  then obtain c ds where h: "trim line = c # ds" "c = CHR ''D'' \<or> c = CHR ''d''"
      "fixedDigits 6 ds" "v = of_nat (digitsToNat ds) / 1000"
    by blast
  then have "matchD6 (trim line) = Some ds" using matchD6_iff [of "trim line" ds] by blast
  then show "parseLaTorre line = Some v" using h(4) by (simp add: parseLaTorre_def)
qed

text \<open>\<^verbatim>\<open>"D025500"\<close> decodes to 25.5; \<^verbatim>\<open>"D02550"\<close>, with five digits, is rejected.\<close>

theorem parseLaTorre_accepts_exactly_marker_and_six_digits_witness:
  "parseLaTorre ''D025500'' = Some (25500 / 1000) \<and> parseLaTorre ''D02550'' = None"
proof -
  have t1: "trim ''D025500'' = ''D025500''" "trim ''D02550'' = ''D02550''"
    by (simp_all add: trim_def trimStart_def trimEnd_def isWhiteSpace_def)
  have f: "fixedDigits 6 ''025500''" by (simp add: fixedDigits_def isDigit_def)
  have n: "digitsToNat ''025500'' = 25500" by (simp add: digitsToNat_def digitVal_def)
  have a: "parseLaTorre ''D025500'' = Some (25500 / 1000)"
    using parseLaTorre_accepts_exactly_marker_and_six_digits [of "''D025500''" "25500 / 1000"]
      t1 f n by simp
  have "parseLaTorre ''D02550'' \<noteq> Some v" for v
    using parseLaTorre_accepts_exactly_marker_and_six_digits [of "''D02550''" v] t1
    by (simp add: fixedDigits_def)
  then have b: "parseLaTorre ''D02550'' = None" by (cases "parseLaTorre ''D02550''") auto
  show ?thesis using a b by simp
qed

text \<open>
  Claim C7 as stated says that a line which is not \<^verbatim>\<open>D\<close> followed by six digits is
  rejected. \<^verbatim>\<open>"d025500"\<close> does not start with \<^verbatim>\<open>D\<close> and is accepted, with value 25.5.
\<close>

theorem parseLaTorre_lowercase_marker_accepted:
  "\<not> (\<exists>ds. ''d025500'' = CHR ''D'' # ds \<and> fixedDigits 6 ds)
   \<and> parseLaTorre ''d025500'' = Some (25500 / 1000)"
proof -
  have "parseLaTorre ''d025500'' = Some (25500 / 1000)"
    by (simp add: parseLaTorre_def eval_defs)
  then show ?thesis by simp
qed

subsection \<open>Priority of the variants\<close>

lemma parseLineByMode_with_firstMatch:
  "parseLineByMode_with assume5 line mode =
     toParseResult (trim line)
       (firstMatch [flaggedVariant, bareVariant assume5 mode, genericVariant] (trim line))"
proof (cases "matchFlagged ''PNTBR'' (trim line)")
  case (Some p)
  then show ?thesis
    by (cases p) (simp add: parseLineByMode_with_def toParseResult_def flaggedVariant_def Let_def)
next
  case None
  show ?thesis
  proof (cases "fixedDigits 5 (trim line)")
    case True
    then show ?thesis using None
      by (simp add: parseLineByMode_with_def toParseResult_def flaggedVariant_def
          bareVariant_def matchOnly5_def Let_def)
  next
    case False
    then show ?thesis using None
      by (cases "genericSearch (trim line)")
        (simp_all add: parseLineByMode_with_def toParseResult_def flaggedVariant_def
          bareVariant_def matchOnly5_def genericVariant_def Let_def)
  qed
qed

lemma decodeLine_firstMatch: "decodeLine line = firstMatch [parseLatorre5, parseGeneric] line"
  by (simp add: decodeLine_def split: option.splits)

text \<open>
  Claim C8. \<^verbatim>\<open>parseLineByMode\<close> returns, for the trimmed line, what the first matching
  variant of the list flagged five digits, bare five digits, generic decimal returns
  (value, tag and flag), and a rejection when none matches; the read loop of the
  virtual scale tester returns what the first of \<^verbatim>\<open>parseLatorre5\<close>, \<^verbatim>\<open>parseGeneric\<close>
  returns. So a result carries the generic tag exactly when the generic pattern matches
  and neither stricter variant does.
\<close>

theorem decoder_tries_variants_in_priority_order:
  "parseLineByMode_with assume5 line mode =
     toParseResult (trim line)
       (firstMatch [flaggedVariant, bareVariant assume5 mode, genericVariant] (trim line))
   \<and> decodeLine line = firstMatch [parseLatorre5, parseGeneric] line
   \<and> (source (parseLineByMode_with assume5 line mode) = Some Src_GENERIC \<longleftrightarrow>
        flaggedVariant (trim line) = None \<and> bareVariant assume5 mode (trim line) = None
        \<and> genericVariant (trim line) \<noteq> None)"
proof -
  have 3: "source (parseLineByMode_with assume5 line mode) = Some Src_GENERIC \<longleftrightarrow>
        flaggedVariant (trim line) = None \<and> bareVariant assume5 mode (trim line) = None
        \<and> genericVariant (trim line) \<noteq> None"
    unfolding parseLineByMode_with_firstMatch
    by (cases "flaggedVariant (trim line)"; cases "bareVariant assume5 mode (trim line)";
        cases "genericVariant (trim line)")
      (auto simp: toParseResult_def flaggedVariant_def bareVariant_def genericVariant_def
        split: option.splits if_splits)
  show ?thesis using parseLineByMode_with_firstMatch decodeLine_firstMatch 3 by blast
qed

text \<open>
  \<^verbatim>\<open>"P 12345"\<close> matches the generic pattern, with value 12345, and the flagged one, with
  value 12.345; both decoders return the flagged reading.
\<close>

theorem decoder_tries_variants_in_priority_order_witness:
  "genericVariant ''P 12345'' = Some (12345, Src_GENERIC, None)
   \<and> flaggedVariant ''P 12345'' = Some (12345 / 1000, Src_GRAMS5_P, Some CHR ''P'')
   \<and> parseLineByMode ''P 12345'' MODE =
       \<lparr>ok = True, raw = ''P 12345'', kg = Some (12345 / 1000),
        source = Some Src_GRAMS5_P, flag = Some CHR ''P''\<rparr>
   \<and> parseGeneric ''P 12345'' = Some \<lparr>reading_value = 12345, reading_source = ''GEN''\<rparr>
   \<and> decodeLine ''P 12345'' =
       Some \<lparr>reading_value = 12345 / 1000, reading_source = ''L1001(P)''\<rparr>"
proof -
  have t: "trim ''P 12345'' = ''P 12345''"
    by (simp add: trim_def trimStart_def trimEnd_def isWhiteSpace_def)
  have g: "genericVariant ''P 12345'' = Some (12345, Src_GENERIC, None)"
    by (simp add: genericVariant_def eval_defs)
  have f: "flaggedVariant ''P 12345'' = Some (12345 / 1000, Src_GRAMS5_P, Some CHR ''P'')"
    by (simp add: flaggedVariant_def eval_defs)
  have pg: "parseGeneric ''P 12345'' = Some \<lparr>reading_value = 12345, reading_source = ''GEN''\<rparr>"
    by (simp add: parseGeneric_def eval_defs)
  have pl: "parseLatorre5 ''P 12345'' =
      Some \<lparr>reading_value = 12345 / 1000, reading_source = ''L1001(P)''\<rparr>"
    by (simp add: parseLatorre5_def parseLatorre5_with_def SCALE_FACTOR_def eval_defs)
  show ?thesis
    using decoder_tries_variants_in_priority_order [of GRAMS "''P 12345''" AUTO] t g f pg pl
    by (simp add: parseLineByMode_def MODE_def ASSUME_5DIGITS_IS_def toParseResult_def)
qed

subsection \<open>The generic pattern\<close>

lemma sign_not_digit: "isSign c \<Longrightarrow> \<not> isDigit c"
  by (auto simp: isSign_def isDigit_def)

lemma separator_not_digit: "isSeparator c \<Longrightarrow> \<not> isDigit c"
  by (auto simp: isSeparator_def isDigit_def)

lemma separator_not_space: "isSeparator c \<Longrightarrow> \<not> isWhiteSpace c"
  by (auto simp: isSeparator_def isWhiteSpace_def)

lemma comma_not_digit: "isDigit c \<Longrightarrow> c \<noteq> CHR '',''"
  by (auto simp: isDigit_def)

lemma comma_not_sign: "isSign c \<Longrightarrow> c \<noteq> CHR '',''"
  by (auto simp: isSign_def)

lemma takeWhile_append_stop:
  "\<forall>x\<in>set xs. P x \<Longrightarrow> ys = [] \<or> \<not> P (hd ys) \<Longrightarrow> takeWhile P (xs @ ys) = xs"
  by (cases ys) (simp_all add: takeWhile_append2)

text \<open>A position where neither a digit nor a sign followed by a digit stands has no match.\<close>

lemma genericAt_no_start:
  assumes "\<not> isDigit c" and "\<not> isSign c \<or> r = [] \<or> \<not> isDigit (hd r)"
  shows "genericAt (c # r) = None"
proof (cases "isSign c")
  case True
  then have "r = [] \<or> \<not> isDigit (hd r)" using assms(2) by blast
  then have "takeWhile isDigit (take 6 r) = []" by (cases r) auto
  then show ?thesis using True by (simp add: genericAt_def Let_def)
next
  case False
  have "takeWhile isDigit (take 6 (c # r)) = []" using assms(1) by simp
  then show ?thesis using False by (simp add: genericAt_def Let_def del: take_Cons_numeral)
qed

lemma genericAt_digit_start:
  assumes "isDigit d"
  shows "genericAt (d # t) \<noteq> None"
proof -
  have "\<not> isSign d" using assms sign_not_digit by blast
  moreover have "takeWhile isDigit (take 6 (d # t)) \<noteq> []" using assms by simp
  ultimately show ?thesis by (simp add: genericAt_def Let_def del: take_Cons_numeral)
qed

lemma genericSearch_hit: "genericAt s \<noteq> None \<Longrightarrow> genericSearch s = genericAt s"
  by (cases s) (auto simp: genericAt_def)

lemma signBefore_Cons: "pre \<noteq> [] \<Longrightarrow> signBefore (c # pre) = signBefore pre"
  by (simp add: signBefore_def)

text \<open>
  The search skips everything before the first digit; the match starts at that digit,
  or at a sign standing immediately before it.
\<close>

lemma genericSearch_first_run:
  assumes "\<forall>c\<in>set pre. \<not> isDigit c" and "isDigit d"
  shows "genericSearch (pre @ d # t) = genericAt (signBefore pre @ d # t)"
  using assms(1)
proof (induction pre)
  case Nil
  then show ?case
    using genericSearch_hit [OF genericAt_digit_start [OF assms(2)]]
    by (simp add: signBefore_def)
next
  case (Cons c pre)
  then have nd: "\<not> isDigit c" and rest: "\<forall>c\<in>set pre. \<not> isDigit c" by simp_all
  show ?case
  proof (cases "pre = []")
    case True
    show ?thesis
    proof (cases "isSign c")
      case s: True
      have "genericAt (c # d # t) \<noteq> None"
        using s assms(2) by (simp add: genericAt_def Let_def)
      then show ?thesis
        using True s genericSearch_hit [of "c # d # t"] by (simp add: signBefore_def)
    next
      case s: False
      have "genericAt (c # d # t) = None" using nd s by (intro genericAt_no_start) simp_all
      then show ?thesis
        using True s genericSearch_hit [OF genericAt_digit_start [OF assms(2)], of t]
        by (simp add: signBefore_def)
    qed
  next
    case False
    then have "\<not> isDigit (hd (pre @ d # t))" using rest by (cases pre) simp_all
    then have "genericAt (c # pre @ d # t) = None"
      using nd by (intro genericAt_no_start) simp_all
    then show ?thesis using Cons.IH [OF rest] False by (simp add: signBefore_Cons)
  qed
qed

lemma signBefore_cases: "signBefore pre = [] \<or> (\<exists>s. isSign s \<and> signBefore pre = [s])"
  by (simp add: signBefore_def)

text \<open>The match at the head of a text, from its parts.\<close>

lemma genericAt_parts:
  assumes "(case s of [] \<Rightarrow> [] | c # _ \<Rightarrow> if isSign c then [c] else []) = sg"
    and "drop (length sg) s = r"
    and "takeWhile isDigit (take 6 r) = ds"
    and "ds \<noteq> []"
    and "drop (length ds) r = r2"
    and "(case r2 of [] \<Rightarrow> []
          | c # r3 \<Rightarrow> (let fs = takeWhile isDigit (take 3 r3)
                        in if isSeparator c \<and> fs \<noteq> [] then c # fs else [])) = fr"
  shows "genericAt s = Some (sg @ ds @ fr)"
proof -
  have "genericAt s = (if ds = [] then None else Some (sg @ ds @ fr))"
    unfolding genericAt_def Let_def
    unfolding assms(1) assms(2) assms(3) assms(5)
    using assms(6) unfolding Let_def by simp
  then show ?thesis using assms(4) by simp
qed

lemma sign_head:
  assumes "sg = [] \<or> (\<exists>s. isSign s \<and> sg = [s])" and "isDigit d"
  shows "(case sg @ d # t of [] \<Rightarrow> [] | c # _ \<Rightarrow> if isSign c then [c] else []) = sg"
  using assms sign_not_digit by auto

lemma all_digits_take: "list_all isDigit ds \<Longrightarrow> takeWhile isDigit (take n ds) = take n ds"
  by (simp add: list_all_iff takeWhile_eq_all_conv) (meson in_set_takeD)

text \<open>A run of more than six digits: the match is the first six.\<close>

lemma genericAt_long_run:
  assumes "sg = [] \<or> (\<exists>s. isSign s \<and> sg = [s])" and "list_all isDigit ds" and "6 < length ds"
  shows "genericAt (sg @ ds @ rest) = Some (sg @ take 6 ds)"
proof -
  obtain d ds' where ds: "ds = d # ds'" using assms(3) by (cases ds) auto
  have dd: "isDigit d" using assms(2) ds by simp
  have sgn: "(case sg @ ds @ rest of [] \<Rightarrow> [] | c # _ \<Rightarrow> if isSign c then [c] else []) = sg"
    using sign_head [OF assms(1) dd] ds by simp
  have r: "drop (length sg) (sg @ ds @ rest) = ds @ rest" by simp
  have tw: "takeWhile isDigit (take 6 (ds @ rest)) = take 6 ds"
    using assms(3) all_digits_take [OF assms(2)] by simp
  have ne: "take 6 ds \<noteq> []" using ds by simp
  obtain x xs where dr: "drop 6 ds = x # xs" using assms(3) by (cases "drop 6 ds") auto
  have "x \<in> set ds" using dr by (metis in_set_dropD list.set_intros(1))
  then have xd: "isDigit x" using assms(2) by (simp add: list_all_iff)
  have d6: "drop (length (take 6 ds)) (ds @ rest) = x # xs @ rest" using dr assms(3) by simp
  have fr: "(case x # xs @ rest of [] \<Rightarrow> []
          | c # r3 \<Rightarrow> (let fs = takeWhile isDigit (take 3 r3)
                        in if isSeparator c \<and> fs \<noteq> [] then c # fs else [])) = []"
    using xd separator_not_digit by (auto simp: Let_def)
  show ?thesis using genericAt_parts [OF sgn r tw ne d6 fr] by simp
qed

text \<open>
  A run of at most six digits, a separator and more than three digits: the match is
  the run, the separator and the first three.
\<close>

lemma genericAt_long_fraction:
  assumes "sg = [] \<or> (\<exists>s. isSign s \<and> sg = [s])" and "list_all isDigit ds" and "ds \<noteq> []"
    and "length ds \<le> 6" and "isSeparator sep" and "list_all isDigit fs" and "3 < length fs"
  shows "genericAt (sg @ ds @ sep # fs @ rest) = Some (sg @ ds @ sep # take 3 fs)"
proof -
  obtain d ds' where ds: "ds = d # ds'" using assms(3) by (cases ds) auto
  have dd: "isDigit d" using assms(2) ds by simp
  have sgn: "(case sg @ ds @ sep # fs @ rest of [] \<Rightarrow> []
               | c # _ \<Rightarrow> if isSign c then [c] else []) = sg"
    using sign_head [OF assms(1) dd] ds by simp
  have r: "drop (length sg) (sg @ ds @ sep # fs @ rest) = ds @ sep # fs @ rest" by simp
  have t6: "take 6 (ds @ sep # fs @ rest) = ds @ take (6 - length ds) (sep # fs @ rest)"
    using assms(4) by simp
  have stop: "take (6 - length ds) (sep # fs @ rest) = [] \<or>
      \<not> isDigit (hd (take (6 - length ds) (sep # fs @ rest)))"
    using assms(5) separator_not_digit by (cases "6 - length ds") auto
  have tw: "takeWhile isDigit (take 6 (ds @ sep # fs @ rest)) = ds"
    unfolding t6 using assms(2) stop by (intro takeWhile_append_stop) (simp_all add: list_all_iff)
  have d6: "drop (length ds) (ds @ sep # fs @ rest) = sep # fs @ rest" by simp
  have f3: "takeWhile isDigit (take 3 (fs @ rest)) = take 3 fs"
    using assms(7) all_digits_take [OF assms(6)] by simp
  have f3ne: "take 3 fs \<noteq> []" using assms(7) by (cases fs) auto
  have fr: "(case sep # fs @ rest of [] \<Rightarrow> []
          | c # r3 \<Rightarrow> (let fs = takeWhile isDigit (take 3 r3)
                        in if isSeparator c \<and> fs \<noteq> [] then c # fs else [])) = sep # take 3 fs"
    using assms(5) f3 f3ne by (simp add: Let_def)
  show ?thesis using genericAt_parts [OF sgn r tw assms(3) d6 fr] by simp
qed


subsection \<open>Trimming around a run\<close>

lemma trimStart_sandwich:
  assumes "mid \<noteq> []" and "\<not> isWhiteSpace (hd mid)"
  shows "trimStart (pre @ mid @ rest) = trimStart pre @ mid @ rest"
proof -
  have "dropWhile isWhiteSpace (mid @ rest) = mid @ rest"
    using assms by (cases mid) simp_all
  then show ?thesis by (simp add: trimStart_def dropWhile_append)
qed

lemma trimEnd_sandwich:
  assumes "mid \<noteq> []" and "\<not> isWhiteSpace (last mid)"
  shows "trimEnd (pre @ mid @ rest) = pre @ mid @ trimEnd rest"
proof -
  have "dropWhile isWhiteSpace (rev mid @ rev pre) = rev mid @ rev pre"
    using assms by (cases mid rule: rev_cases) simp_all
  then show ?thesis by (simp add: trimEnd_def dropWhile_append)
qed

lemma trim_sandwich:
  assumes "mid \<noteq> []" and "\<not> isWhiteSpace (hd mid)" and "\<not> isWhiteSpace (last mid)"
  shows "trim (pre @ mid @ rest) = trimStart pre @ mid @ trimEnd rest"
  by (simp add: trim_def trimStart_sandwich [OF assms(1,2)] trimEnd_sandwich [OF assms(1,3)])

lemma trimStart_no_digit: "\<forall>c\<in>set pre. \<not> isDigit c \<Longrightarrow> \<forall>c\<in>set (trimStart pre). \<not> isDigit c"
  by (auto simp: trimStart_def dest: set_dropWhileD)

lemma sign_not_space: "isSign c \<Longrightarrow> \<not> isWhiteSpace c"
  by (auto simp: isSign_def isWhiteSpace_def)

lemma signBefore_trimStart: "signBefore (trimStart pre) = signBefore pre"
proof (induction pre)
  case Nil
  then show ?case by (simp add: trimStart_def)
next
  case (Cons c pre)
  show ?case
  proof (cases "isWhiteSpace c")
    case True
    then have t: "trimStart (c # pre) = trimStart pre" by (simp add: trimStart_def)
    show ?thesis
    proof (cases "pre = []")
      case e: True
      then show ?thesis using True sign_not_space by (auto simp: trimStart_def signBefore_def)
    next
      case False
      then show ?thesis using t Cons.IH by (simp add: signBefore_Cons)
    qed
  next
    case False
    then show ?thesis by (simp add: trimStart_def)
  qed
qed

subsection \<open>Normalising and converting the match\<close>

lemma replaceFirst_absent: "a \<notin> set s \<Longrightarrow> replaceFirst a b s = s"
  by (induction s) auto

lemma replaceFirst_append: "a \<notin> set p \<Longrightarrow> replaceFirst a b (p @ s) = p @ replaceFirst a b s"
  by (induction p) auto

lemma no_comma_in_digits: "list_all isDigit ds \<Longrightarrow> CHR '','' \<notin> set ds"
  using comma_not_digit by (auto simp: list_all_iff)

lemma no_comma_in_sign: "sg = [] \<or> (\<exists>s. isSign s \<and> sg = [s]) \<Longrightarrow> CHR '','' \<notin> set sg"
  by (auto simp: isSign_def)

lemma list_all_take: "list_all P xs \<Longrightarrow> list_all P (take n xs)"
  by (auto simp: list_all_iff dest: in_set_takeD)

lemma normalise_integer:
  assumes "sg = [] \<or> (\<exists>s. isSign s \<and> sg = [s])" and "list_all isDigit ds"
  shows "replaceFirst CHR '','' CHR ''.'' (sg @ ds) = sg @ ds"
  using no_comma_in_sign [OF assms(1)] no_comma_in_digits [OF assms(2)]
  by (intro replaceFirst_absent) simp

lemma normalise_fraction:
  assumes "sg = [] \<or> (\<exists>s. isSign s \<and> sg = [s])" and "list_all isDigit ds"
    and "isSeparator sep" and "list_all isDigit fs"
  shows "replaceFirst CHR '','' CHR ''.'' (sg @ ds @ sep # fs) = sg @ ds @ CHR ''.'' # fs"
proof -
  have a: "CHR '','' \<notin> set (sg @ ds)"
    using no_comma_in_sign [OF assms(1)] no_comma_in_digits [OF assms(2)] by simp
  have b: "replaceFirst CHR '','' CHR ''.'' (sep # fs) = CHR ''.'' # fs"
    using assms(3) no_comma_in_digits [OF assms(4)]
    by (auto simp: isSeparator_def replaceFirst_absent)
  show ?thesis using replaceFirst_append [OF a, of "CHR ''.''" "sep # fs"] b by simp
qed

lemma toNumber_parts:
  assumes "sg = [] \<or> (\<exists>s. isSign s \<and> sg = [s])" and "list_all isDigit ds" and "ds \<noteq> []"
    and "fr = [] \<or> (\<exists>fs. fr = CHR ''.'' # fs)"
  shows "toNumber (sg @ ds @ fr) =
           signedValue sg (of_nat (digitsToNat ds)
             + of_nat (digitsToNat (drop 1 fr)) / 10 ^ length (drop 1 fr))"
proof -
  obtain d ds' where ds: "ds = d # ds'" using assms(3) by (cases ds) auto
  have dd: "isDigit d" using assms(2) ds by simp
  have u: "(case sg @ ds @ fr of [] \<Rightarrow> [] | c # r \<Rightarrow> if isSign c then r else sg @ ds @ fr) = ds @ fr"
    using assms(1) ds dd sign_not_digit by auto
  have stop: "fr = [] \<or> \<not> isDigit (hd fr)"
    using assms(4) by (auto simp: isDigit_def)
  have ip: "takeWhile isDigit (ds @ fr) = ds"
    using assms(2) stop by (intro takeWhile_append_stop) (simp_all add: list_all_iff)
  have neg: "(sg @ ds @ fr \<noteq> [] \<and> hd (sg @ ds @ fr) = CHR ''-'') \<longleftrightarrow> sg = ''-''"
    using assms(1) ds dd by (auto simp: isDigit_def)
  show ?thesis
    unfolding toNumber_def Let_def u ip neg
    by (simp add: signedValue_def)
qed

subsection \<open>Lines the stricter variants reject\<close>

lemma matchFlagged_shape:
  assumes "matchFlagged letters L = Some x"
  shows "\<exists>c w d5. (L = c # d5 \<or> (L = c # w # d5 \<and> isWhiteSpace w)) \<and> fixedDigits 5 d5"
proof -
  obtain c r where L: "L = c # r" using assms by (cases L) (auto simp: matchFlagged_def)
  then obtain w r' where r: "r = w # r'"
    using assms by (cases r) (auto simp: matchFlagged_def split: if_splits)
  show ?thesis using assms L r by (auto simp: matchFlagged_def split: if_splits)
qed

lemma long_run_not_flagged:
  assumes "list_all isDigit ds" and "6 < length ds"
  shows "matchFlagged letters (p @ ds @ r) = None"
proof (rule ccontr)
  assume "matchFlagged letters (p @ ds @ r) \<noteq> None"
  then obtain x where "matchFlagged letters (p @ ds @ r) = Some x" by auto
  then obtain c w d5 where
    sh: "p @ ds @ r = c # d5 \<or> (p @ ds @ r = c # w # d5 \<and> isWhiteSpace w)" "fixedDigits 5 d5"
    using matchFlagged_shape by blast
  have len: "length (p @ ds @ r) = length p + length ds + length r" by simp
  from sh(1) show False
  proof
    assume "p @ ds @ r = c # d5"
    then have "length (p @ ds @ r) = 6" using sh(2) by (simp add: fixedDigits_def)
    then show False using len assms(2) by simp
  next
    assume a: "p @ ds @ r = c # w # d5 \<and> isWhiteSpace w"
    then have "length (p @ ds @ r) = 7" using sh(2) by (simp add: fixedDigits_def)
    then have "length p = 0" "length r = 0" using len assms(2) by arith+
    then have "p = []" "r = []" by simp_all
    then have "ds = c # w # d5" using a by simp
    then have "isDigit w" using assms(1) by simp
    then show False using a digit_not_space by blast
  qed
qed

lemma long_run_not_bare:
  assumes "6 < length ds"
  shows "matchOnly5 (p @ ds @ r) = None"
  using assms by (simp add: matchOnly5_def fixedDigits_def)

lemma fraction_not_flagged:
  assumes "ds \<noteq> []" and "isSeparator sep"
  shows "matchFlagged letters (p @ ds @ sep # r) = None"
proof (rule ccontr)
  assume "matchFlagged letters (p @ ds @ sep # r) \<noteq> None"
  then obtain x where "matchFlagged letters (p @ ds @ sep # r) = Some x" by auto
  then obtain c w d5 where
    sh: "p @ ds @ sep # r = c # d5 \<or> (p @ ds @ sep # r = c # w # d5 \<and> isWhiteSpace w)"
      "fixedDigits 5 d5"
    using matchFlagged_shape by blast
  obtain y ys where pd: "p @ ds = y # ys" using assms(1) by (cases "p @ ds") auto
  then have L: "p @ ds @ sep # r = y # ys @ sep # r" by (metis append_Cons append_assoc)
  have d5: "\<forall>z\<in>set d5. isDigit z" using sh(2) by (simp add: fixedDigits_def list_all_iff)
  have mem: "sep \<in> set (ys @ sep # r)" by simp
  from sh(1) show False
  proof
    assume "p @ ds @ sep # r = c # d5"
    then have "ys @ sep # r = d5" using L by simp
    then have "sep \<in> set d5" using mem by simp
    then show False using d5 assms(2) separator_not_digit by blast
  next
    assume a: "p @ ds @ sep # r = c # w # d5 \<and> isWhiteSpace w"
    then have "ys @ sep # r = w # d5" using L by simp
    then have "sep \<in> set (w # d5)" using mem by simp
    then show False using d5 a assms(2) separator_not_digit separator_not_space by auto
  qed
qed

lemma fraction_not_bare:
  assumes "isSeparator sep"
  shows "matchOnly5 (p @ ds @ sep # r) = None"
  using assms separator_not_digit by (auto simp: matchOnly5_def fixedDigits_def list_all_iff)

subsection \<open>Over-long runs\<close>

lemma digits_ends:
  assumes "list_all isDigit ds" and "ds \<noteq> []"
  shows "\<not> isWhiteSpace (hd ds)" "\<not> isWhiteSpace (last ds)"
  using assms digit_not_space by (auto simp: list_all_iff)

lemma generic_long_run:
  assumes "\<forall>c\<in>set pre. \<not> isDigit c" and "list_all isDigit ds" and "6 < length ds"
  shows "trim (pre @ ds @ rest) = trimStart pre @ ds @ trimEnd rest"
    and "genericSearch (trim (pre @ ds @ rest)) = Some (signBefore pre @ take 6 ds)"
proof -
  obtain d ds' where ds: "ds = d # ds'" using assms(3) by (cases ds) auto
  have dd: "isDigit d" using assms(2) ds by simp
  have ne: "ds \<noteq> []" using ds by simp
  show t: "trim (pre @ ds @ rest) = trimStart pre @ ds @ trimEnd rest"
    using digits_ends [OF assms(2) ne] ne by (intro trim_sandwich)
  have "genericSearch (trimStart pre @ d # ds' @ trimEnd rest) =
          genericAt (signBefore (trimStart pre) @ d # ds' @ trimEnd rest)"
    using trimStart_no_digit [OF assms(1)] dd by (rule genericSearch_first_run)
  then have "genericSearch (trim (pre @ ds @ rest)) =
          genericAt (signBefore pre @ ds @ trimEnd rest)"
    using t ds by (simp add: signBefore_trimStart)
  then show "genericSearch (trim (pre @ ds @ rest)) = Some (signBefore pre @ take 6 ds)"
    using genericAt_long_run [OF signBefore_cases assms(2,3)] by simp
qed

lemma generic_long_fraction:
  assumes "\<forall>c\<in>set pre. \<not> isDigit c" and "list_all isDigit ds" and "ds \<noteq> []"
    and "length ds \<le> 6" and "isSeparator sep" and "list_all isDigit fs" and "3 < length fs"
  shows "trim (pre @ ds @ sep # fs @ rest) = trimStart pre @ ds @ sep # fs @ trimEnd rest"
    and "genericSearch (trim (pre @ ds @ sep # fs @ rest)) =
           Some (signBefore pre @ ds @ sep # take 3 fs)"
proof -
  obtain d ds' where ds: "ds = d # ds'" using assms(3) by (cases ds) auto
  have dd: "isDigit d" using assms(2) ds by simp
  have fne: "fs \<noteq> []" using assms(7) by auto
  let ?mid = "ds @ sep # fs"
  have m: "?mid \<noteq> []" "\<not> isWhiteSpace (hd ?mid)" "\<not> isWhiteSpace (last ?mid)"
    using digits_ends [OF assms(2,3)] digits_ends [OF assms(6) fne] assms(3) fne by simp_all
  have "trim (pre @ ?mid @ rest) = trimStart pre @ ?mid @ trimEnd rest"
    using m by (rule trim_sandwich)
  then show t: "trim (pre @ ds @ sep # fs @ rest) = trimStart pre @ ds @ sep # fs @ trimEnd rest"
    by simp
  have "genericSearch (trimStart pre @ d # ds' @ sep # fs @ trimEnd rest) =
          genericAt (signBefore (trimStart pre) @ d # ds' @ sep # fs @ trimEnd rest)"
    using trimStart_no_digit [OF assms(1)] dd by (rule genericSearch_first_run)
  then have "genericSearch (trim (pre @ ds @ sep # fs @ rest)) =
          genericAt (signBefore pre @ ds @ sep # fs @ trimEnd rest)"
    using t ds by (simp add: signBefore_trimStart)
  then show "genericSearch (trim (pre @ ds @ sep # fs @ rest)) =
           Some (signBefore pre @ ds @ sep # take 3 fs)"
    using genericAt_long_fraction [OF signBefore_cases assms(2,3,4,5,6,7)] by simp
qed

text \<open>
  Claim C10. Let the first run of digits of a line be \<open>ds\<close>, after a prefix \<open>pre\<close>
  without digits. If the run has more than six digits, the generic parser does not
  reject the line: it returns the sign standing immediately before the run, if any, and
  the first six digits. If the run has at most six digits and is followed by a
  separator and more than three digits, it returns the sign, the run, a point and the
  first three of those digits. \<^verbatim>\<open>parseWeight\<close> returns that text, \<^verbatim>\<open>parseGeneric\<close> and
  the generic branch of \<^verbatim>\<open>parseLineByMode\<close> (no stricter variant matches such a line)
  return the number it denotes. The digits beyond the bounds are dropped.
\<close>

theorem generic_fallback_truncates_overlong_run:
  assumes "\<forall>c\<in>set pre. \<not> isDigit c" and "list_all isDigit ds"
  shows
    "(6 < length ds \<longrightarrow>
        parseWeight (pre @ ds @ rest) = Some (signBefore pre @ take 6 ds)
      \<and> parseGeneric (pre @ ds @ rest) =
          Some \<lparr>reading_value = signedValue (signBefore pre) (of_nat (digitsToNat (take 6 ds))),
                reading_source = ''GEN''\<rparr>
      \<and> parseLineByMode_with assume5 (pre @ ds @ rest) mode =
          \<lparr>ok = True, raw = trim (pre @ ds @ rest),
           kg = Some (signedValue (signBefore pre) (of_nat (digitsToNat (take 6 ds)))),
           source = Some Src_GENERIC, flag = None\<rparr>)
   \<and> (ds \<noteq> [] \<and> length ds \<le> 6 \<and> isSeparator sep \<and> list_all isDigit fs \<and> 3 < length fs \<longrightarrow>
        parseWeight (pre @ ds @ sep # fs @ rest) =
          Some (signBefore pre @ ds @ CHR ''.'' # take 3 fs)
      \<and> parseGeneric (pre @ ds @ sep # fs @ rest) =
          Some \<lparr>reading_value = signedValue (signBefore pre)
                  (of_nat (digitsToNat ds) + of_nat (digitsToNat (take 3 fs)) / 1000),
                reading_source = ''GEN''\<rparr>
      \<and> parseLineByMode_with assume5 (pre @ ds @ sep # fs @ rest) mode =
          \<lparr>ok = True, raw = trim (pre @ ds @ sep # fs @ rest),
           kg = Some (signedValue (signBefore pre)
                  (of_nat (digitsToNat ds) + of_nat (digitsToNat (take 3 fs)) / 1000)),
           source = Some Src_GENERIC, flag = None\<rparr>)"
proof (intro conjI impI)
  assume long: "6 < length ds"
  note g = generic_long_run [OF assms long, of rest]
  have d6: "list_all isDigit (take 6 ds)" using assms(2) by (rule list_all_take)
  have ne6: "take 6 ds \<noteq> []" using long by auto
  have norm: "replaceFirst CHR '','' CHR ''.'' (signBefore pre @ take 6 ds) = signBefore pre @ take 6 ds"
    using signBefore_cases d6 by (rule normalise_integer)
  have num: "toNumber (signBefore pre @ take 6 ds) =
      signedValue (signBefore pre) (of_nat (digitsToNat (take 6 ds)))"
    using toNumber_parts [OF signBefore_cases d6 ne6, of "[]"]
    by (simp add: digitsToNat_def)
  show "parseWeight (pre @ ds @ rest) = Some (signBefore pre @ take 6 ds)"
    using g(2) norm by (simp add: parseWeight_def)
  show "parseGeneric (pre @ ds @ rest) =
          Some \<lparr>reading_value = signedValue (signBefore pre) (of_nat (digitsToNat (take 6 ds))),
                reading_source = ''GEN''\<rparr>"
    using g(2) norm num by (simp add: parseGeneric_def)
  have nf: "matchFlagged ''PNTBR'' (trim (pre @ ds @ rest)) = None"
    unfolding g(1) using assms(2) long by (rule long_run_not_flagged)
  have nb: "matchOnly5 (trim (pre @ ds @ rest)) = None"
    unfolding g(1) using long by (rule long_run_not_bare)
  show "parseLineByMode_with assume5 (pre @ ds @ rest) mode =
          \<lparr>ok = True, raw = trim (pre @ ds @ rest),
           kg = Some (signedValue (signBefore pre) (of_nat (digitsToNat (take 6 ds)))),
           source = Some Src_GENERIC, flag = None\<rparr>"
    using nf nb g(2) norm num by (simp add: parseLineByMode_with_def Let_def)
next
  assume h: "ds \<noteq> [] \<and> length ds \<le> 6 \<and> isSeparator sep \<and> list_all isDigit fs \<and> 3 < length fs"
  then have ne: "ds \<noteq> []" and le: "length ds \<le> 6" and sp: "isSeparator sep"
    and fd: "list_all isDigit fs" and fl: "3 < length fs" by simp_all
  note g = generic_long_fraction [OF assms ne le sp fd fl, of rest]
  have f3: "list_all isDigit (take 3 fs)" using fd by (rule list_all_take)
  have l3: "length (take 3 fs) = 3" using fl by simp
  have norm: "replaceFirst CHR '','' CHR ''.'' (signBefore pre @ ds @ sep # take 3 fs) =
      signBefore pre @ ds @ CHR ''.'' # take 3 fs"
    using signBefore_cases assms(2) sp f3 by (rule normalise_fraction)
  have num: "toNumber (signBefore pre @ ds @ CHR ''.'' # take 3 fs) =
      signedValue (signBefore pre)
        (of_nat (digitsToNat ds) + of_nat (digitsToNat (take 3 fs)) / 1000)"
    using toNumber_parts [OF signBefore_cases assms(2) ne, of "CHR ''.'' # take 3 fs"] l3
    by simp
  show "parseWeight (pre @ ds @ sep # fs @ rest) =
          Some (signBefore pre @ ds @ CHR ''.'' # take 3 fs)"
    using g(2) norm by (simp add: parseWeight_def)
  show "parseGeneric (pre @ ds @ sep # fs @ rest) =
          Some \<lparr>reading_value = signedValue (signBefore pre)
                  (of_nat (digitsToNat ds) + of_nat (digitsToNat (take 3 fs)) / 1000),
                reading_source = ''GEN''\<rparr>"
    using g(2) norm num by (simp add: parseGeneric_def)
  have nf: "matchFlagged ''PNTBR'' (trim (pre @ ds @ sep # fs @ rest)) = None"
    unfolding g(1) using fraction_not_flagged [OF ne sp, of "''PNTBR''" "trimStart pre" "fs @ trimEnd rest"]
    by simp
  have nb: "matchOnly5 (trim (pre @ ds @ sep # fs @ rest)) = None"
    unfolding g(1) using fraction_not_bare [OF sp, of "trimStart pre" ds "fs @ trimEnd rest"]
    by simp
  show "parseLineByMode_with assume5 (pre @ ds @ sep # fs @ rest) mode =
          \<lparr>ok = True, raw = trim (pre @ ds @ sep # fs @ rest),
           kg = Some (signedValue (signBefore pre)
                  (of_nat (digitsToNat ds) + of_nat (digitsToNat (take 3 fs)) / 1000)),
           source = Some Src_GENERIC, flag = None\<rparr>"
    using nf nb g(2) norm num by (simp add: parseLineByMode_with_def Let_def)
qed

text \<open>\<^verbatim>\<open>"1234567"\<close> yields 123456 and \<^verbatim>\<open>"12.34567"\<close> yields 12.345.\<close>

theorem generic_fallback_truncates_overlong_run_witness:
  "list_all isDigit ''1234567'' \<and> list_all isDigit ''12''
   \<and> list_all isDigit ''34567'' \<and> isSeparator CHR ''.''
   \<and> parseWeight ''1234567'' = Some ''123456''
   \<and> parseGeneric ''1234567'' = Some \<lparr>reading_value = 123456, reading_source = ''GEN''\<rparr>
   \<and> kg (parseLineByMode ''1234567'' MODE) = Some 123456
   \<and> parseWeight ''12.34567'' = Some ''12.345''
   \<and> parseGeneric ''12.34567'' = Some \<lparr>reading_value = 12345 / 1000, reading_source = ''GEN''\<rparr>
   \<and> kg (parseLineByMode ''12.34567'' MODE) = Some (12345 / 1000)"
proof -
  have h0: "\<forall>c\<in>set []. \<not> isDigit c" by simp
  have h1: "list_all isDigit ''1234567''" "list_all isDigit ''12''" "list_all isDigit ''34567''"
    by (simp_all add: isDigit_def)
  have h2: "isSeparator CHR ''.''" by (simp add: isSeparator_def)
  have n: "digitsToNat ''123456'' = 123456" "digitsToNat ''12'' = 12" "digitsToNat ''345'' = 345"
    by (simp_all add: digitsToNat_def digitVal_def)
  have s: "signBefore [] = []" by (simp add: signBefore_def)
  have a: "6 < length ''1234567''" by simp
  have b: "''12'' \<noteq> [] \<and> length ''12'' \<le> 6 \<and> isSeparator CHR ''.'' \<and> list_all isDigit ''34567''
      \<and> 3 < length ''34567''"
    using h1 h2 by simp
  show ?thesis
    using generic_fallback_truncates_overlong_run [OF h0 h1(1), of "[]" GRAMS AUTO "CHR ''.''" "[]"]
      generic_fallback_truncates_overlong_run [OF h0 h1(2), of "[]" GRAMS AUTO "CHR ''.''" "''34567''"]
      a b h1 h2 n s
    by (simp add: signedValue_def parseLineByMode_def MODE_def ASSUME_5DIGITS_IS_def)
qed

section \<open>ReadSession\<close>

subsection \<open>Trimming twice\<close>

lemma trimStart_head: "trimStart s = [] \<or> \<not> isWhiteSpace (hd (trimStart s))"
  unfolding trimStart_def by (metis hd_dropWhile)

lemma trimEnd_last: "trimEnd s = [] \<or> \<not> isWhiteSpace (last (trimEnd s))"
proof -
  have "dropWhile isWhiteSpace (rev s) = [] \<or> \<not> isWhiteSpace (hd (dropWhile isWhiteSpace (rev s)))"
    by (metis hd_dropWhile)
  then show ?thesis by (auto simp: trimEnd_def last_rev)
qed

lemma trimEnd_head: "trimEnd s \<noteq> [] \<Longrightarrow> \<not> isWhiteSpace (hd s) \<Longrightarrow> \<not> isWhiteSpace (hd (trimEnd s))"
proof (induction s rule: rev_induct)
  case Nil
  then show ?case by (simp add: trimEnd_def)
next
  case (snoc x xs)
  show ?case
  proof (cases "isWhiteSpace x")
    case True
    then have e: "trimEnd (xs @ [x]) = trimEnd xs" by (simp add: trimEnd_def)
    then have "xs \<noteq> []" using snoc.prems(1) by (auto simp: trimEnd_def)
    then have "hd (xs @ [x]) = hd xs" by simp
    then show ?thesis using snoc e by simp
  next
    case False
    then have "trimEnd (xs @ [x]) = xs @ [x]" by (simp add: trimEnd_def)
    then show ?thesis using snoc.prems by simp
  qed
qed

lemma trim_ends: "trim s = [] \<or> (\<not> isWhiteSpace (hd (trim s)) \<and> \<not> isWhiteSpace (last (trim s)))"
proof (cases "trim s = []")
  case True
  then show ?thesis by simp
next
  case False
  then have ne: "trimEnd (trimStart s) \<noteq> []" by (simp add: trim_def)
  then have "trimStart s \<noteq> []" by (auto simp: trimEnd_def)
  then have "\<not> isWhiteSpace (hd (trimStart s))" using trimStart_head by blast
  then have "\<not> isWhiteSpace (hd (trim s))" using trimEnd_head [OF ne] by (simp add: trim_def)
  moreover have "\<not> isWhiteSpace (last (trim s))" using trimEnd_last [of "trimStart s"] ne
    by (simp add: trim_def)
  ultimately show ?thesis by simp
qed

lemma trim_idem: "trim (trim s) = trim s"
proof (cases "trim s = []")
  case True
  have "trim [] = []" by (simp add: trim_def trimStart_def trimEnd_def)
  then show ?thesis using True by simp
next
  case False
  then show ?thesis using trim_ends [of s] by (intro trim_id) auto
qed

subsection \<open>SmoothingWindow\<close>

lemma parseLaTorre_trim: "parseLaTorre (trim s) = parseLaTorre s"
  by (simp add: parseLaTorre_def trim_idem)

lemma parseLaTorre_blank: "trim s = [] \<Longrightarrow> parseLaTorre s = None"
  by (simp add: parseLaTorre_def matchD6_def)

lemma foldl_plus: "foldl (+) a xs = a + sum_list xs" for a :: rat
  by (induction xs arbitrary: a) (simp_all add: add.assoc)

lemma readLine_cases:
  "readLine f st (now, line) =
     (case parseLaTorre line of
        None \<Rightarrow> st
      | Some x \<Rightarrow>
          st\<lparr>lastSeen := now, smooth := pushShift (smooth st) x,
             displayKg := f (sum_list (pushShift (smooth st) x)
                             / of_nat (length (pushShift (smooth st) x)))\<rparr>)"
proof (cases "trim line = []")
  case True
  then show ?thesis using parseLaTorre_blank [OF True] by (simp add: readLine_def)
next
  case False
  then show ?thesis
    by (simp add: readLine_def parseLaTorre_trim Let_def foldl_plus split: option.splits)
qed

lemma pushShift_lastN:
  assumes "length arr \<le> SMOOTH_WINDOW"
  shows "pushShift arr x = lastN SMOOTH_WINDOW (arr @ [x])"
proof (cases "length arr = 3")
  case True
  then obtain a r where ar: "arr = a # r" by (cases arr) auto
  have "pushShift arr x = r @ [x]"
    using True ar by (simp add: pushShift_def SMOOTH_WINDOW_def Let_def)
  moreover have "lastN SMOOTH_WINDOW (arr @ [x]) = r @ [x]"
    using True ar by (simp add: lastN_def SMOOTH_WINDOW_def)
  ultimately show ?thesis by simp
next
  case False
  then have "length arr < 3" using assms by (simp add: SMOOTH_WINDOW_def)
  then show ?thesis by (simp add: pushShift_def lastN_def SMOOTH_WINDOW_def Let_def)
qed

lemma lastN_length: "length (lastN n xs) = min n (length xs)"
  by (auto simp: lastN_def)

lemma lastN_snoc:
  assumes "0 < n"
  shows "lastN n (lastN n xs @ [x]) = lastN n (xs @ [x])"
proof (cases "n \<le> length xs")
  case True
  then obtain k where k: "length xs = n + k" using le_Suc_ex by blast
  have a: "lastN n xs = drop k xs" using k by (simp add: lastN_def)
  have "lastN n (drop k xs @ [x]) = drop (Suc 0) (drop k xs @ [x])"
    using k by (simp add: lastN_def)
  also have "\<dots> = drop (Suc k) xs @ [x]"
  proof -
    obtain y ys where "drop k xs = y # ys" using k assms by (cases "drop k xs") auto
    then show ?thesis by (metis append_Cons drop0 drop_Suc_Cons drop_drop plus_1_eq_Suc)
  qed
  also have "\<dots> = lastN n (xs @ [x])"
  proof -
    have "Suc 0 - n = 0" using assms by simp
    then show ?thesis using k by (simp add: lastN_def)
  qed
  finally show ?thesis using a by simp
next
  case False
  then show ?thesis by (simp add: lastN_def)
qed

lemma decodedValues_snoc:
  "decodedValues (evs @ [ev]) =
     decodedValues evs @ (case parseLaTorre (snd ev) of None \<Rightarrow> [] | Some x \<Rightarrow> [x])"
  by (simp add: decodedValues_def List.map_filter_def split: option.splits)

lemma lastN_id: "length xs \<le> n \<Longrightarrow> lastN n xs = xs"
  by (simp add: lastN_def)

text \<open>
  Claim C9. Start the read loop from a session whose window holds at most
  \<^verbatim>\<open>SMOOTH_WINDOW\<close> = 3 values (the fresh session of \<^verbatim>\<open>connect\<close> and the session after a
  watchdog reset hold none) and let it read any sequence of lines. Then the window holds
  the last three values of the old window followed by the values decoded since, in
  arrival order; so it never holds more than three; and once a value has been decoded,
  the text on display is \<^verbatim>\<open>toFixed(3)\<close> of the arithmetic mean of the values in the window.
  Every prefix of the sequence is such a sequence, so this holds after every update.
\<close>

theorem smoothing_window_is_bounded_fifo:
  assumes "length (smooth st0) \<le> SMOOTH_WINDOW"
  shows
    "smooth (foldl (readLine toFixed3) st0 evs) =
        lastN SMOOTH_WINDOW (smooth st0 @ decodedValues evs)
     \<and> length (smooth (foldl (readLine toFixed3) st0 evs)) \<le> SMOOTH_WINDOW
     \<and> (decodedValues evs \<noteq> [] \<longrightarrow>
          displayKg (foldl (readLine toFixed3) st0 evs) =
            toFixed3 (sum_list (smooth (foldl (readLine toFixed3) st0 evs))
                      / of_nat (length (smooth (foldl (readLine toFixed3) st0 evs)))))"
proof (induction evs rule: rev_induct)
  case Nil
  then show ?case using assms by (simp add: decodedValues_def List.map_filter_def lastN_id)
next
  case (snoc ev evs)
  let ?st = "foldl (readLine toFixed3) st0 evs"
  obtain now line where ev: "ev = (now, line)" by (cases ev)
  have sm: "smooth ?st = lastN SMOOTH_WINDOW (smooth st0 @ decodedValues evs)"
    using snoc.IH by blast
  have le: "length (smooth ?st) \<le> SMOOTH_WINDOW"
    using snoc.IH by blast
  show ?case
  proof (cases "parseLaTorre line")
    case None
    then have "foldl (readLine toFixed3) st0 (evs @ [ev]) = ?st"
      using ev by (simp add: readLine_cases)
    moreover have "decodedValues (evs @ [ev]) = decodedValues evs"
      using None ev by (simp add: decodedValues_snoc)
    ultimately show ?thesis using snoc.IH by (simp add: lastN_length)
  next
    case (Some x)
    let ?w = "pushShift (smooth ?st) x"
    have st': "foldl (readLine toFixed3) st0 (evs @ [ev]) =
        ?st\<lparr>lastSeen := now, smooth := ?w,
             displayKg := toFixed3 (sum_list ?w / of_nat (length ?w))\<rparr>"
      using Some ev by (simp add: readLine_cases)
    have dv: "decodedValues (evs @ [ev]) = decodedValues evs @ [x]"
      using Some ev by (simp add: decodedValues_snoc)
    have w: "?w = lastN SMOOTH_WINDOW (smooth st0 @ decodedValues evs @ [x])"
      using pushShift_lastN [OF le, of x] sm
        lastN_snoc [of SMOOTH_WINDOW "smooth st0 @ decodedValues evs" x]
      by (simp add: SMOOTH_WINDOW_def)
    have wl: "length ?w \<le> SMOOTH_WINDOW" unfolding w by (simp add: lastN_length)
    show ?thesis using st' dv w wl by simp
  qed
qed

text \<open>
  From the fresh session, five lines of which four decode (25.5, 0.001, 0.002, 0.003):
  the window holds the last three and the display shows their mean, 0.002.
\<close>

theorem smoothing_window_is_bounded_fifo_witness:
  "length (smooth freshSession) \<le> SMOOTH_WINDOW
   \<and> decodedValues [(1, ''D025500''), (2, ''D000001''), (3, ''x''), (4, '' D000002''), (5, ''d000003'')]
       = [25500 / 1000, 1 / 1000, 2 / 1000, 3 / 1000]
   \<and> (\<forall>f.
        smooth (foldl (readLine f) freshSession
          [(1, ''D025500''), (2, ''D000001''), (3, ''x''), (4, '' D000002''), (5, ''d000003'')])
         = [1 / 1000, 2 / 1000, 3 / 1000]
      \<and> displayKg (foldl (readLine f) freshSession
          [(1, ''D025500''), (2, ''D000001''), (3, ''x''), (4, '' D000002''), (5, ''d000003'')])
         = f (2 / 1000))"
proof -
  let ?evs = "[(1::int, ''D025500''), (2, ''D000001''), (3, ''x''), (4, '' D000002''), (5, ''d000003'')]"
  have h: "length (smooth freshSession) \<le> SMOOTH_WINDOW"
    by (simp add: freshSession_def SMOOTH_WINDOW_def)
  have p: "parseLaTorre ''D025500'' = Some (25500 / 1000)"
      "parseLaTorre ''D000001'' = Some (1 / 1000)"
      "parseLaTorre ''x'' = None"
      "parseLaTorre '' D000002'' = Some (2 / 1000)"
      "parseLaTorre ''d000003'' = Some (3 / 1000)"
    by (simp_all add: parseLaTorre_def eval_defs)
  have d: "decodedValues ?evs = [25500 / 1000, 1 / 1000, 2 / 1000, 3 / 1000]"
    using p by (simp add: decodedValues_def map_filter_simps)
  have "smooth (foldl (readLine f) freshSession ?evs) = [1 / 1000, 2 / 1000, 3 / 1000]
      \<and> displayKg (foldl (readLine f) freshSession ?evs) = f (2 / 1000)" for f
    using smoothing_window_is_bounded_fifo [OF h, of f ?evs] d
    by (simp add: freshSession_def lastN_def SMOOTH_WINDOW_def)
  then show ?thesis using h d by blast
qed

subsection \<open>Idle-timeout watchdog\<close>

text \<open>
  Claim C3, as amended. In a connected session that has seen a telegram, every poll of
  the watchdog that finds more than \<^verbatim>\<open>FRAME_TIMEOUT_MS\<close> = 800 ms elapsed since the last
  valid telegram clears the smoothing window and sets the display to \<^verbatim>\<open>'0.000'\<close>. The
  poll leaves \<^verbatim>\<open>lastSeenRef\<close> as it is, so every later poll of the same idle period runs
  the reset again; the repeated reset leaves the state as the first one left it.
\<close>

theorem watchdog_resets_on_every_poll_past_the_threshold:
  assumes "connected st" and "lastSeen st \<noteq> 0" and "now - lastSeen st > FRAME_TIMEOUT_MS"
    and "now \<le> later"
  shows "watchdogPoll now st = (True, st\<lparr>smooth := [], displayKg := ''0.000''\<rparr>)
     \<and> watchdogPoll later (snd (watchdogPoll now st)) = (True, snd (watchdogPoll now st))"
  using assms by (simp add: watchdogPoll_def Let_def)

text \<open>Last telegram at 1000 ms, polls at 1920 ms and 2040 ms.\<close>

theorem watchdog_resets_on_every_poll_past_the_threshold_witness:
  "connected (freshSession\<lparr>lastSeen := 1000, smooth := [51 / 2], displayKg := ''25.500''\<rparr>)
   \<and> (1000::int) \<noteq> 0 \<and> (1920::int) - 1000 > FRAME_TIMEOUT_MS \<and> (1920::int) \<le> 2040
   \<and> watchdogPoll 1920 (freshSession\<lparr>lastSeen := 1000, smooth := [51 / 2], displayKg := ''25.500''\<rparr>)
       = (True, freshSession\<lparr>lastSeen := 1000, smooth := [], displayKg := ''0.000''\<rparr>)"
proof -
  let ?st = "freshSession\<lparr>lastSeen := 1000, smooth := [51 / 2], displayKg := ''25.500''\<rparr>"
  have h1: "connected ?st" by (simp add: freshSession_def)
  have h2: "lastSeen ?st \<noteq> 0" by simp
  have h3: "1920 - lastSeen ?st > FRAME_TIMEOUT_MS" by (simp add: FRAME_TIMEOUT_MS_def)
  have h4: "(1920::int) \<le> 2040" by simp
  show ?thesis
    using watchdog_resets_on_every_poll_past_the_threshold [OF h1 h2 h3 h4] h1 h3
    by simp
qed

text \<open>
  Claim C3 as stated says that the reset is performed once per idle period and not on
  successive polls. With the last telegram at 1000 ms and no telegram after it, the
  poll at 1920 ms runs the reset and the poll at 2040 ms runs it again.
\<close>

theorem watchdog_reset_repeats_within_one_idle_period:
  "fst (watchdogPoll 1920
          (freshSession\<lparr>lastSeen := 1000, smooth := [51 / 2], displayKg := ''25.500''\<rparr>))
   \<and> fst (watchdogPoll 2040 (snd (watchdogPoll 1920
          (freshSession\<lparr>lastSeen := 1000, smooth := [51 / 2], displayKg := ''25.500''\<rparr>))))"
  by (simp add: watchdogPoll_def Let_def freshSession_def FRAME_TIMEOUT_MS_def)

section \<open>ProbeEngine\<close>

subsection \<open>The three loops as one linear search\<close>

lemma forDelims_tryConfigs:
  "forDelims pr b s ds ui = tryConfigs pr (map (makeConfig b s) ds) ui"
proof (induction ds arbitrary: ui)
  case Nil
  then show ?case by simp
next
  case (Cons d ds)
  show ?case
  proof (cases "pr (makeConfig b s d) (ui\<lparr>status := Probing (name (makeConfig b s d))\<rparr>)")
    case None
    then show ?thesis by (simp add: Let_def)
  next
    case (Some p)
    obtain r ui1 where p: "p = (r, ui1)" by (cases p)
    show ?thesis using Some p Cons.IH by (cases r) (simp_all add: Let_def)
  qed
qed

lemma tryConfigs_append:
  "tryConfigs pr (xs @ ys) ui =
     (case tryConfigs pr xs ui of
        None \<Rightarrow> None
      | Some (Some cfg, ui1) \<Rightarrow> Some (Some cfg, ui1)
      | Some (None, ui1) \<Rightarrow> tryConfigs pr ys ui1)"
proof (induction xs arbitrary: ui)
  case Nil
  then show ?case by simp
next
  case (Cons x xs)
  show ?case
  proof (cases "pr x (ui\<lparr>status := Probing (name x)\<rparr>)")
    case None
    then show ?thesis by simp
  next
    case (Some p)
    obtain r ui1 where p: "p = (r, ui1)" by (cases p)
    show ?thesis using Some p Cons.IH by (cases r) simp_all
  qed
qed

lemma forSetups_tryConfigs:
  "forSetups pr b ss delims ui =
     tryConfigs pr (concat (map (\<lambda>s. map (makeConfig b s) delims) ss)) ui"
proof (induction ss arbitrary: ui)
  case Nil
  then show ?case by simp
next
  case (Cons s ss)
  show ?case
    by (simp add: forDelims_tryConfigs tryConfigs_append Cons.IH
        split: option.splits prod.splits)
qed

lemma forBauds_tryConfigs:
  "forBauds pr bs setups delims ui = tryConfigs pr (candidates bs setups delims) ui"
proof (induction bs arbitrary: ui)
  case Nil
  then show ?case by (simp add: candidates_def)
next
  case (Cons b bs)
  have c: "candidates (b # bs) setups delims =
      concat (map (\<lambda>s. map (makeConfig b s) delims) setups) @ candidates bs setups delims"
    by (simp add: candidates_def)
  show ?case
    unfolding c
    by (simp add: forSetups_tryConfigs tryConfigs_append Cons.IH
        split: option.splits prod.splits)
qed

text \<open>
  \<^verbatim>\<open>autoDetect\<close> is the linear search through the configurations in the order baud
  rate, set-up, delimiter.
\<close>

lemma autoDetect_with_linear:
  "autoDetect_with pr bauds setups delims ui = tryConfigs pr (candidates bauds setups delims) ui"
  by (simp add: autoDetect_with_def forBauds_tryConfigs)

text \<open>
  If every probe before \<open>cfg\<close> returns unmatched and the probe of \<open>cfg\<close> returns
  a match, the search returns \<open>cfg\<close> and shows the sample; if every probe returns
  unmatched, the search returns no configuration.
\<close>

lemma tryConfigs_first_match:
  assumes "\<forall>c\<in>set pre. \<forall>u. \<exists>u1. pr c u = Some (Unmatched, u1)"
    and "\<forall>u. \<exists>u1. pr cfg u = Some (Matched sample line, u1)"
  shows "\<exists>u. tryConfigs pr (pre @ cfg # post) ui = Some (Some cfg, u)
            \<and> rawLine u = line \<and> weight u = sample"
  using assms(1)
proof (induction pre arbitrary: ui)
  case Nil
  obtain u1 where "pr cfg (ui\<lparr>status := Probing (name cfg)\<rparr>) = Some (Matched sample line, u1)"
    using assms(2) by blast
  then show ?case by (simp add: setLog_def)
next
  case (Cons c pre)
  obtain u1 where "pr c (ui\<lparr>status := Probing (name c)\<rparr>) = Some (Unmatched, u1)"
    using Cons.prems by (meson list.set_intros(1))
  then show ?case using Cons.IH [of u1] Cons.prems by simp
qed

lemma tryConfigs_no_match:
  assumes "\<forall>c\<in>set cfgs. \<forall>u. \<exists>u1. pr c u = Some (Unmatched, u1)"
  shows "\<exists>u. tryConfigs pr cfgs ui = Some (None, u)"
  using assms
proof (induction cfgs arbitrary: ui)
  case Nil
  then show ?case by simp
next
  case (Cons c cfgs)
  obtain u1 where "pr c (ui\<lparr>status := Probing (name c)\<rparr>) = Some (Unmatched, u1)"
    using Cons.prems by (meson list.set_intros(1))
  then show ?case using Cons.IH [of u1] Cons.prems by simp
qed

text \<open>
  What holds of claim C4 on the code: the order of the search, and its result whenever
  the probes it runs return.
\<close>

lemma candidates_order:
  "map name (candidates BAUDS SETUPS DELIMS) =
     [''1200 8N1 CR'', ''1200 8N1 CRLF'', ''1200 8N1 LF'',
      ''1200 7E1 CR'', ''1200 7E1 CRLF'', ''1200 7E1 LF'',
      ''2400 8N1 CR'', ''2400 8N1 CRLF'', ''2400 8N1 LF'',
      ''2400 7E1 CR'', ''2400 7E1 CRLF'', ''2400 7E1 LF'',
      ''4800 8N1 CR'', ''4800 8N1 CRLF'', ''4800 8N1 LF'',
      ''4800 7E1 CR'', ''4800 7E1 CRLF'', ''4800 7E1 LF'',
      ''9600 8N1 CR'', ''9600 8N1 CRLF'', ''9600 8N1 LF'',
      ''9600 7E1 CR'', ''9600 7E1 CRLF'', ''9600 7E1 LF'',
      ''19200 8N1 CR'', ''19200 8N1 CRLF'', ''19200 8N1 LF'',
      ''19200 7E1 CR'', ''19200 7E1 CRLF'', ''19200 7E1 LF'']"
proof -
  have n: "natToString 1200 = ''1200''" "natToString 2400 = ''2400''"
      "natToString 4800 = ''4800''" "natToString 9600 = ''9600''"
      "natToString 19200 = ''19200''"
    by (simp_all add: natToString.simps char_of_eq_iff)
  show ?thesis
    by (simp add: candidates_def BAUDS_def SETUPS_def DELIMS_def makeConfig_def n
        CR_def LF_def CRLF_def)
qed

lemma autoDetect_with_first_match:
  assumes "candidates bauds setups delims = pre @ cfg # post"
    and "\<forall>c\<in>set pre. \<forall>u. \<exists>u1. pr c u = Some (Unmatched, u1)"
    and "\<forall>u. \<exists>u1. pr cfg u = Some (Matched sample line, u1)"
  shows "\<exists>u. autoDetect_with pr bauds setups delims ui = Some (Some cfg, u)
            \<and> rawLine u = line \<and> weight u = sample"
  unfolding autoDetect_with_linear assms(1)
  using assms(2,3) by (rule tryConfigs_first_match)

lemma autoDetect_with_no_match:
  assumes "\<forall>c\<in>set (candidates bauds setups delims). \<forall>u. \<exists>u1. pr c u = Some (Unmatched, u1)"
  shows "\<exists>u. autoDetect_with pr bauds setups delims ui = Some (None, u)"
  unfolding autoDetect_with_linear using assms by (rule tryConfigs_no_match)

subsection \<open>A configuration the port rejects\<close>

lemma probeOnce_open_failure:
  assumes "openError port (baudRate cfg) (dataBits cfg) (parity cfg) (stopBits cfg) = Some msg"
  shows "probeOnce port cfg ui =
           Some (Unmatched,
                 setLog (LogProbeFailed (name cfg) msg)
                   ((setLog (LogOpenError msg) ui)\<lparr>status := OpenFailed msg\<rparr>))"
  using assms by (simp add: probeOnce_def probeOnce_try_def openWithConfig_def)

text \<open>
  The probe of \<^verbatim>\<open>part_002\<close> returns the same result on a rejected configuration and
  leaves the state as it was.
\<close>

lemma probeOnce_part_002_open_failure:
  assumes "openError port (baudRate cfg) (dataBits cfg) (parity cfg) (stopBits cfg) = Some msg"
  shows "probeOnce_part_002 port cfg ui = Some (Unmatched, ui)"
  using assms
  by (simp add: probeOnce_part_002_def probeOnce_try_part_002_def openWithConfig_part_002_def)

text \<open>
  Claim C5. If opening the port with the parameters of a configuration fails,
  \<^verbatim>\<open>probeOnce\<close> returns \<^verbatim>\<open>{ ok: false }\<close> for it: the exception that \<^verbatim>\<open>openWithConfig\<close>
  rethrows is caught, and the only traces are the two log entries and the status line.
  Wherever the configuration stands in the order of \<^verbatim>\<open>autoDetect\<close>, the search that
  reaches it goes on with the configurations after it.
\<close>

theorem rejected_configuration_is_skipped:
  assumes "openError port (baudRate cfg) (dataBits cfg) (parity cfg) (stopBits cfg) = Some msg"
  shows
    "probeOnce port cfg ui =
       Some (Unmatched,
             setLog (LogProbeFailed (name cfg) msg)
               ((setLog (LogOpenError msg) ui)\<lparr>status := OpenFailed msg\<rparr>))
     \<and> (candidates bauds setups delims = pre @ cfg # post \<longrightarrow>
          autoDetect_with (probeOnce port) bauds setups delims ui0 =
            (case tryConfigs (probeOnce port) pre ui0 of
               None \<Rightarrow> None
             | Some (Some found, u) \<Rightarrow> Some (Some found, u)
             | Some (None, u) \<Rightarrow>
                 tryConfigs (probeOnce port) post
                   (setLog (LogProbeFailed (name cfg) msg)
                      ((setLog (LogOpenError msg) (u\<lparr>status := Probing (name cfg)\<rparr>))
                         \<lparr>status := OpenFailed msg\<rparr>))))"
proof (intro conjI impI)
  show "probeOnce port cfg ui =
       Some (Unmatched,
             setLog (LogProbeFailed (name cfg) msg)
               ((setLog (LogOpenError msg) ui)\<lparr>status := OpenFailed msg\<rparr>))"
    using assms by (rule probeOnce_open_failure)
next
  assume c: "candidates bauds setups delims = pre @ cfg # post"
  have step: "tryConfigs (probeOnce port) (cfg # post) u =
      tryConfigs (probeOnce port) post
        (setLog (LogProbeFailed (name cfg) msg)
           ((setLog (LogOpenError msg) (u\<lparr>status := Probing (name cfg)\<rparr>))
              \<lparr>status := OpenFailed msg\<rparr>))" for u
    using probeOnce_open_failure [OF assms, of "u\<lparr>status := Probing (name cfg)\<rparr>"] by simp
  show "autoDetect_with (probeOnce port) bauds setups delims ui0 =
            (case tryConfigs (probeOnce port) pre ui0 of
               None \<Rightarrow> None
             | Some (Some found, u) \<Rightarrow> Some (Some found, u)
             | Some (None, u) \<Rightarrow>
                 tryConfigs (probeOnce port) post
                   (setLog (LogProbeFailed (name cfg) msg)
                      ((setLog (LogOpenError msg) (u\<lparr>status := Probing (name cfg)\<rparr>))
                         \<lparr>status := OpenFailed msg\<rparr>)))"
    unfolding autoDetect_with_linear c tryConfigs_append step
    by (simp split: option.splits prod.splits)
qed

text \<open>
  A port that rejects 1200 baud and delivers the line \<^verbatim>\<open>"12.5"\<close> otherwise: the search
  over 1200 and 2400 baud skips the rejected configuration and returns the second one.
\<close>

theorem rejected_configuration_is_skipped_witness:
  "openError \<lparr>openError = (\<lambda>b db p sb. if b = 1200 then Some ''NetworkError'' else None),
               clock = (\<lambda>c. 0), lined = (\<lambda>c. Yield ''12.5'' 10 Closed),
               echoed = (\<lambda>out. Inr [])\<rparr>
      (baudRate (makeConfig 1200 (hd SETUPS) CR)) (dataBits (makeConfig 1200 (hd SETUPS) CR))
      (parity (makeConfig 1200 (hd SETUPS) CR)) (stopBits (makeConfig 1200 (hd SETUPS) CR))
      = Some ''NetworkError''
   \<and> candidates [1200, 2400] [hd SETUPS] [CR] =
       [] @ makeConfig 1200 (hd SETUPS) CR # [makeConfig 2400 (hd SETUPS) CR]
   \<and> map_option fst
       (autoDetect_with
          (probeOnce \<lparr>openError = (\<lambda>b db p sb. if b = 1200 then Some ''NetworkError'' else None),
                      clock = (\<lambda>c. 0), lined = (\<lambda>c. Yield ''12.5'' 10 Closed),
                      echoed = (\<lambda>out. Inr [])\<rparr>)
          [1200, 2400] [hd SETUPS] [CR]
          \<lparr>status = Initial, rawLine = ''-'', weight = ''-'', log = []\<rparr>)
       = Some (Some (makeConfig 2400 (hd SETUPS) CR))"
proof -
  let ?port = "\<lparr>openError = (\<lambda>b db p sb. if b = (1200::nat) then Some ''NetworkError'' else None),
               clock = (\<lambda>c. 0), lined = (\<lambda>c. Yield ''12.5'' 10 Closed),
               echoed = (\<lambda>out. Inr [])\<rparr>"
  let ?cfg = "makeConfig 1200 (hd SETUPS) CR"
  let ?ui0 = "\<lparr>status = Initial, rawLine = ''-'', weight = ''-'', log = []\<rparr>"
  have h: "openError ?port (baudRate ?cfg) (dataBits ?cfg) (parity ?cfg) (stopBits ?cfg)
      = Some ''NetworkError''"
    by (simp add: makeConfig_def)
  have c: "candidates [1200, 2400] [hd SETUPS] [CR] = [] @ ?cfg # [makeConfig 2400 (hd SETUPS) CR]"
    by (simp add: candidates_def)
  have p: "parseWeight ''12.5'' = Some ''12.5''" "trim ''12.5'' = ''12.5''"
    by (simp_all add: parseWeight_def eval_defs)
  have q: "probeOnce ?port (makeConfig 2400 (hd SETUPS) CR) u = Some (Matched ''12.5'' ''12.5'', u)" for u
    using p by (simp add: probeOnce_def probeOnce_try_def openWithConfig_def makeConfig_def
        PROBE_MS_def Let_def)
  show ?thesis
    using rejected_configuration_is_skipped [OF h, of ?ui0 "[1200, 2400]" "[hd SETUPS]" "[CR]"
        "[]" "[makeConfig 2400 (hd SETUPS) CR]" ?ui0] h c q
    by simp
qed

subsection \<open>The probe window\<close>

lemma probeOnce_silent:
  assumes "openError port (baudRate cfg) (dataBits cfg) (parity cfg) (stopBits cfg) = None"
    and "lined port cfg = Silent"
  shows "probeOnce port cfg ui = None"
  using assms by (simp add: probeOnce_def probeOnce_try_def openWithConfig_def PROBE_MS_def)

lemma probeOnce_part_002_silent:
  assumes "openError port (baudRate cfg) (dataBits cfg) (parity cfg) (stopBits cfg) = None"
    and "lined port cfg = Silent"
  shows "probeOnce_part_002 port cfg ui = None"
  using assms
  by (simp add: probeOnce_part_002_def probeOnce_try_part_002_def openWithConfig_part_002_def
      PROBE_MS_def)

text \<open>
  The deadline is read before the read is awaited and not while it is pending: a line
  that arrives long after the window has ended is still taken as the sample.
\<close>

lemma probeLoop_accepts_late_line:
  "probeLoop 1800 0 (Yield ''12.5'' 60000 Closed) = Some (Inr (Matched ''12.5'' ''12.5''))"
proof -
  have "parseWeight ''12.5'' = Some ''12.5''" "trim ''12.5'' = ''12.5''"
    by (simp_all add: parseWeight_def eval_defs)
  then show ?thesis by (simp add: Let_def)
qed

text \<open>
  Claim C4 says that \<^verbatim>\<open>autoDetect\<close> returns \<^verbatim>\<open>null\<close> when no configuration yields a
  decodable line. On a port that opens with every configuration and delivers no line,
  the first probe waits for its first read without a deadline and \<^verbatim>\<open>autoDetect\<close> does
  not return: neither the one of \<^verbatim>\<open>part_002\<close> nor the one of \<^verbatim>\<open>test.tsx\<close>.
\<close>

theorem autoDetect_does_not_return_on_silent_port:
  "autoDetect
     \<lparr>openError = (\<lambda>b db p sb. None), clock = (\<lambda>cfg. 0), lined = (\<lambda>cfg. Silent),
      echoed = (\<lambda>out. Inr [])\<rparr>
     \<lparr>status = Initial, rawLine = ''-'', weight = ''-'', log = []\<rparr> = None
   \<and> autoDetect_test
     \<lparr>openError = (\<lambda>b db p sb. None), clock = (\<lambda>cfg. 0), lined = (\<lambda>cfg. Silent),
      echoed = (\<lambda>out. Inr [])\<rparr>
     \<lparr>status = Initial, rawLine = ''-'', weight = ''-'', log = []\<rparr> = None"
proof -
  let ?port = "\<lparr>openError = (\<lambda>b db p sb. None), clock = (\<lambda>cfg. 0), lined = (\<lambda>cfg. Silent),
      echoed = (\<lambda>out. Inr [])\<rparr>"
  have a: "probeOnce_part_002 ?port cfg ui = None" for cfg ui
    by (rule probeOnce_part_002_silent) simp_all
  have b: "probeOnce ?port cfg ui = None" for cfg ui
    by (rule probeOnce_silent) simp_all
  have "autoDetect ?port ui = None" for ui
    using a
    by (simp add: autoDetect_def autoDetect_with_linear candidates_def BAUDS_def SETUPS_def
        DELIMS_def)
  moreover have "autoDetect_test ?port ui = None" for ui
    using b
    by (simp add: autoDetect_test_def autoDetect_with_linear candidates_def BAUDS_test_def
        SETUPS_test_def DELIMS_test_def)
  ultimately show ?thesis by simp
qed

section \<open>LoopbackTester\<close>

lemma indexOf_sublist: "indexOf d s \<noteq> None \<longleftrightarrow> sublist d s"
proof (induction s)
  case Nil
  then show ?case by simp
next
  case (Cons x xs)
  then show ?case by (auto simp: sublist_Cons_right)
qed

lemma join_append:
  "xs \<noteq> [] \<Longrightarrow> ys \<noteq> [] \<Longrightarrow> join sep (xs @ ys) = join sep xs @ sep @ join sep ys"
proof (induction sep xs rule: join.induct)
  case (1 sep)
  then show ?case by simp
next
  case (2 sep p)
  then show ?case by (cases ys) simp_all
next
  case (3 sep p q ps)
  then show ?case by simp
qed

lemma join_sublist: "sublist xs ys \<Longrightarrow> sublist (join sep xs) (join sep ys)"
proof -
  assume "sublist xs ys"
  then obtain p q where ys: "ys = p @ xs @ q" by (auto simp: sublist_def)
  show ?thesis
  proof (cases "xs = []")
    case True
    then show ?thesis by simp
  next
    case False
    have a: "sublist (join sep xs) (join sep (xs @ q))"
    proof (cases "q = []")
      case True
      then show ?thesis by simp
    next
      case q: False
      show ?thesis using join_append [OF False q, of sep] by simp
    qed
    have xq: "xs @ q \<noteq> []" using False by simp
    show ?thesis
    proof (cases "p = []")
      case True
      then show ?thesis using a ys by simp
    next
      case p: False
      have "join sep ys = join sep p @ sep @ join sep (xs @ q)"
        using join_append [OF p xq, of sep] ys by simp
      then show ?thesis using a by (simp add: sublist_append)
    qed
  qed
qed

text \<open>
  One direction of claim C2 holds on the code: when the bytes of the token occur
  contiguously in the bytes read back, the comparison reports an echo.
\<close>

lemma hayEco_complete: "sublist enc bytes \<Longrightarrow> hayEco bytes enc"
proof -
  assume "sublist enc bytes"
  then have "sublist (map (\<lambda>b. natToString (unat b)) enc) (map (\<lambda>b. natToString (unat b)) bytes)"
    by (rule map_mono_sublist)
  then show ?thesis
    unfolding hayEco_def js_includes_def bytesJoin_def indexOf_sublist by (rule join_sublist)
qed

text \<open>
  A port that opens and returns exactly the bytes written: the test succeeds.
\<close>

lemma loopbackTest_exact_echo:
  assumes "openError port 9600 8 ParityNone 1 = None"
    and "echoed port (textEncode (loopbackToken rnd)) = Inr (textEncode (loopbackToken rnd))"
  shows "fst (loopbackTest port rnd ui) = Inr True"
proof -
  have ne: "textEncode (loopbackToken rnd) \<noteq> []"
    by (simp add: textEncode_def loopbackToken_def)
  have "hayEco (textEncode (loopbackToken rnd)) (textEncode (loopbackToken rnd))"
    by (rule hayEco_complete) simp
  then show ?thesis
    using assms ne by (simp add: loopbackTest_def openWithConfig_def Let_def)
qed

text \<open>
  Claim C2 says that the test succeeds only if the bytes of the token occur contiguously
  in the bytes read back. The comparison is made on the decimal texts joined by commas,
  and a text can occur inside another across the digits of a byte. With the token
  \<^verbatim>\<open>"LBK5\r"\<close>, bytes 76 66 75 53 13, and the reply 176 66 75 53 13, the text
  \<^verbatim>\<open>"76,66,75,53,13"\<close> occurs in \<^verbatim>\<open>"176,66,75,53,13"\<close>: the test reports an echo although
  the first byte differs.
\<close>

theorem loopbackTest_reports_echo_on_different_bytes:
  "textEncode (loopbackToken 5) = [76, 66, 75, 53, 13]
   \<and> \<not> sublist (textEncode (loopbackToken 5)) [176, 66, 75, 53, 13]
   \<and> fst (loopbackTest
        \<lparr>openError = (\<lambda>b db p sb. None), clock = (\<lambda>cfg. 0), lined = (\<lambda>cfg. Silent),
         echoed = (\<lambda>out. Inr [176, 66, 75, 53, 13])\<rparr>
        5 \<lparr>status = Initial, rawLine = ''-'', weight = ''-'', log = []\<rparr>) = Inr True"
proof -
  have t: "textEncode (loopbackToken 5) = [76, 66, 75, 53, 13]"
    by (simp add: textEncode_def loopbackToken_def CR_def natToString.simps char_of_eq_iff)
  have n: "\<not> sublist [76, 66, 75, 53, 13 :: byte] [176, 66, 75, 53, 13]"
    by (simp add: sublist_Cons_right)
  have j: "bytesJoin [76, 66, 75, 53, 13] = ''76,66,75,53,13''"
      "bytesJoin [176, 66, 75, 53, 13] = ''176,66,75,53,13''"
    by (simp_all add: bytesJoin_def natToString.simps char_of_eq_iff)
  have e: "hayEco [176, 66, 75, 53, 13] [76, 66, 75, 53, 13]"
    unfolding hayEco_def js_includes_def j by simp
  show ?thesis using t n e by (simp add: loopbackTest_def openWithConfig_def Let_def)
qed

end
